theory Spec2Isabelle
  imports Main "HOL-Library.Sublist" "HOL-Library.AList"
begin

section \<open>JavaScript strings\<close>

text \<open>
  A JavaScript string is a sequence of code units. It is modelled as a
  \<^typ>\<open>string\<close>, one \<^typ>\<open>char\<close> per code unit, the \<^typ>\<open>char\<close> of code \<open>n\<close>
  standing for the code unit \<open>n\<close>: these are the strings of code units below 256
  (Latin-1). On them the built-in functions used by the sources act as written here.
\<close>

definition isWhiteSpace :: "char \<Rightarrow> bool" where
  \<comment> \<open>what \<open>String.prototype.trim\<close> strips, white space and line terminators: TAB, LF,
      VT, FF, CR, SPACE and the no-break space U+00A0\<close>
  "isWhiteSpace c =
     (c \<in> set [CHR 0x09, CHR 0x0A, CHR 0x0B, CHR 0x0C, CHR 0x0D, CHR 0x20, CHR 0xA0])"

definition trim :: "string \<Rightarrow> string" where
  "trim s = rev (dropWhile isWhiteSpace (rev (dropWhile isWhiteSpace s)))"




definition substring :: "string \<Rightarrow> nat \<Rightarrow> nat \<Rightarrow> string" where
  \<comment> \<open>\<open>s.substring(a, b)\<close>: both indices are clamped to the length, and swapped when
      \<open>a > b\<close>\<close>
  "substring s a b =
     (let a' = min a (length s); b' = min b (length s)
      in take (max a' b' - min a' b') (drop (min a' b') s))"


section \<open>TreeSearch: the search over the flat node list\<close>






section \<open>JSON values and object literals\<close>

datatype json =
    JNull
  | JBool bool
  | JNum int
  | JStr string
  | JArr "json list"
  | JObj "(string \<times> json) list"

text \<open>An object literal: its properties in the order the source writes them.\<close>

type_synonym js_object = "(string \<times> json) list"

text \<open>
  What a function throws. \<open>Error v\<close> is \<open>new Error(v)\<close>: its message is \<open>v\<close>
  converted to a string, which for a string is the string itself.
\<close>

datatype js_error = TypeError | SyntaxError | Error json


section \<open>The call extractor \<open>extract_calls.js\<close>\<close>

subsection \<open>The syntax tree of the TypeScript compiler\<close>

text \<open>
  Every node has a text range: \<open>pos\<close> is where its leading trivia (white space and
  comments) begins, \<open>getStart\<close> where its first token begins, and \<open>end_pos\<close> (the
  compiler's \<open>end\<close>) where it ends.
\<close>

record text_range =
  pos :: nat
  getStart :: nat
  end_pos :: nat

datatype syntax_kind =
    IfStatement | ConditionalExpression | SwitchStatement
  | ForStatement | ForInStatement | ForOfStatement | WhileStatement | DoStatement
  | TryStatement
  | OtherKind string

text \<open>
  The node shapes that \<open>visit\<close> tells apart, with the fields it reads; every other
  node is an \<open>OtherNode\<close> with its kind and its children in the order of
  \<open>ts.forEachChild\<close>. A call carries \<open>expression\<close>, \<open>typeArguments\<close> and
  \<open>arguments\<close>; \<open>new\<close> the same, with the argument list absent when the source has no
  parentheses; a property access carries \<open>expression\<close> and \<open>name\<close>. Tokens such as
  \<open>?.\<close> are leaves that are neither calls nor constructions.
\<close>

datatype node =
    CallExpression text_range node "node list" "node list"
  | NewExpression text_range node "node list" "node list option"
  | PropertyAccessExpression text_range node node
  | AwaitExpression text_range node
  | Identifier text_range string
  | OtherNode syntax_kind text_range "node list"

fun range_of :: "node \<Rightarrow> text_range" where
  "range_of (CallExpression r e ts as) = r"
| "range_of (NewExpression r e ts as) = r"
| "range_of (PropertyAccessExpression r e n) = r"
| "range_of (AwaitExpression r e) = r"
| "range_of (Identifier r t) = r"
| "range_of (OtherNode k r cs) = r"

fun children :: "node \<Rightarrow> node list" where
  \<comment> \<open>the children in the order in which \<open>ts.forEachChild\<close> calls back\<close>
  "children (CallExpression r e ts as) = e # ts @ as"
| "children (NewExpression r e ts as) = e # ts @ (case as of None \<Rightarrow> [] | Some xs \<Rightarrow> xs)"
| "children (PropertyAccessExpression r e n) = [e, n]"
| "children (AwaitExpression r e) = [e]"
| "children (Identifier r t) = []"
| "children (OtherNode k r cs) = cs"

fun isAwaitExpression :: "node \<Rightarrow> bool" where
  "isAwaitExpression (AwaitExpression r e) = True"
| "isAwaitExpression _ = False"

fun text_of :: "node \<Rightarrow> string" where
  \<comment> \<open>\<open>name.text\<close>; the name of a property access is an identifier\<close>
  "text_of (Identifier r t) = t"
| "text_of _ = []"

definition getText :: "string \<Rightarrow> node \<Rightarrow> string" where
  \<comment> \<open>\<open>node.getText(sourceFile)\<close>: the source from the first token to the end\<close>
  "getText sourceCode n = substring sourceCode (getStart (range_of n)) (end_pos (range_of n))"

subsection \<open>Lines and columns\<close>

fun lineStartsFrom :: "nat \<Rightarrow> string \<Rightarrow> nat list" where
  \<comment> \<open>the positions after each line break of the text that begins at index \<open>i\<close>;
      CR LF is one line break\<close>
  "lineStartsFrom i [] = []"
| "lineStartsFrom i (c # cs) =
     (if c = CHR 0x0A \<or> (c = CHR 0x0D \<and> (case cs of [] \<Rightarrow> True | d # _ \<Rightarrow> d \<noteq> CHR 0x0A))
      then Suc i # lineStartsFrom (Suc i) cs
      else lineStartsFrom (Suc i) cs)"

definition computeLineStarts :: "string \<Rightarrow> nat list" where
  "computeLineStarts text = 0 # lineStartsFrom 0 text"

definition getLineAndCharacterOfPosition :: "string \<Rightarrow> nat \<Rightarrow> nat \<times> nat" where
  \<comment> \<open>the zero-based line that holds the position, and the offset from that line's start\<close>
  "getLineAndCharacterOfPosition text position =
     (let starts = filter (\<lambda>s. s \<le> position) (computeLineStarts text)
      in (length starts - 1, position - last starts))"

subsection \<open>The visitor\<close>

definition argument_texts :: "string \<Rightarrow> node list \<Rightarrow> string list" where
  \<comment> \<open>\<open>arguments.map(arg => sourceCode.substring(arg.pos, arg.end).trim())\<close>\<close>
  "argument_texts sourceCode arguments =
     map (\<lambda>arg. trim (substring sourceCode (pos (range_of arg)) (end_pos (range_of arg))))
       arguments"

fun method_call_events :: "string \<Rightarrow> node option \<Rightarrow> node \<Rightarrow> js_object list" where
  \<comment> \<open>the first \<open>if\<close> of \<open>visit\<close>: what it pushes for this node\<close>
  "method_call_events sourceCode parent (CallExpression r (PropertyAccessExpression r' e n) ts as) =
     (let caller = substring sourceCode (pos (range_of e)) (end_pos (range_of e));
          method = text_of n;
          args = argument_texts sourceCode as;
          (line, character) = getLineAndCharacterOfPosition sourceCode (pos r);
          isAsync = (case parent of None \<Rightarrow> False | Some p \<Rightarrow> isAwaitExpression p)
      in [[(''caller'', JStr caller),
           (''method'', JStr method),
           (''args'', JArr (map JStr args)),
           (''lineno'', JNum (int (line + 1))),
           (''col_offset'', JNum (int character)),
           (''is_async'', JBool isAsync)]])"
| "method_call_events sourceCode parent _ = []"

fun constructor_events :: "string \<Rightarrow> node \<Rightarrow> js_object list" where
  \<comment> \<open>the second \<open>if\<close> of \<open>visit\<close>: what it pushes for this node\<close>
  "constructor_events sourceCode (NewExpression r e ts as) =
     (let className = getText sourceCode e;
          args = (case as of None \<Rightarrow> [] | Some xs \<Rightarrow> argument_texts sourceCode xs);
          (line, character) = getLineAndCharacterOfPosition sourceCode (pos r)
      in [[(''is_constructor'', JBool True),
           (''class'', JStr className),
           (''args'', JArr (map JStr args)),
           (''lineno'', JNum (int (line + 1))),
           (''col_offset'', JNum (int character))]])"
| "constructor_events sourceCode _ = []"

lemma size_children: "c \<in> set (children n) \<Longrightarrow> size c < size n"
proof (cases n)
  case (CallExpression r e ts as)
  assume "c \<in> set (children n)"
  with CallExpression consider "c = e" | "c \<in> set ts" | "c \<in> set as" by auto
  then show ?thesis
    using CallExpression by cases (auto dest: size_list_estimation'[where f = size and y = "size c"])
next
  case (NewExpression r e ts as)
  assume "c \<in> set (children n)"
  with NewExpression consider "c = e" | "c \<in> set ts" | xs where "as = Some xs" "c \<in> set xs"
    by (auto split: option.splits)
  then show ?thesis
    using NewExpression by cases (auto dest: size_list_estimation'[where f = size and y = "size c"])
next
  case (OtherNode k r cs)
  assume "c \<in> set (children n)"
  with OtherNode show ?thesis
    by (auto dest: size_list_estimation'[where f = size and y = "size c"])
qed auto

function visit :: "string \<Rightarrow> node option \<Rightarrow> node \<Rightarrow> js_object list" where
  \<comment> \<open>the events that \<open>visit(node)\<close> appends to \<open>methodCalls\<close>, in the order of the
      pushes; \<open>parent\<close> is \<open>node.parent\<close>\<close>
  "visit sourceCode parent n =
     method_call_events sourceCode parent n @
     constructor_events sourceCode n @
     concat (map (visit sourceCode (Some n)) (children n))"
  by pat_completeness auto
termination
  by (relation "measure (\<lambda>(sourceCode, parent, n). size n)") (auto simp: size_children)

declare visit.simps [simp del]

definition extract_calls :: "string \<Rightarrow> node \<Rightarrow> js_object list" where
  \<comment> \<open>\<open>visit(sourceFile)\<close>: the root has no parent\<close>
  "extract_calls sourceCode sourceFile = visit sourceCode None sourceFile"


subsection \<open>Traversal order, call sites and positions\<close>

function preorder :: "node option \<Rightarrow> node \<Rightarrow> (node option \<times> node) list" where
  \<comment> \<open>the nodes of the tree with their parents, depth first, a node before its
      children\<close>
  "preorder parent n = (parent, n) # concat (map (preorder (Some n)) (children n))"
  by pat_completeness auto
termination
  by (relation "measure (\<lambda>(parent, n). size n)") (auto simp: size_children)

declare preorder.simps [simp del]

fun isCallExpression :: "node \<Rightarrow> bool" where
  "isCallExpression (CallExpression r e ts as) = True"
| "isCallExpression _ = False"

fun isNewExpression :: "node \<Rightarrow> bool" where
  "isNewExpression (NewExpression r e ts as) = True"
| "isNewExpression _ = False"

fun isMethodCall :: "node \<Rightarrow> bool" where
  \<comment> \<open>\<open>ts.isCallExpression(node) && ts.isPropertyAccessExpression(node.expression)\<close>\<close>
  "isMethodCall (CallExpression r (PropertyAccessExpression r' e n) ts as) = True"
| "isMethodCall _ = False"

fun arguments_of :: "node \<Rightarrow> node list" where
  \<comment> \<open>\<open>node.arguments\<close> of a call or a construction, empty when absent\<close>
  "arguments_of (CallExpression r e ts as) = as"
| "arguments_of (NewExpression r e ts as) = (case as of None \<Rightarrow> [] | Some xs \<Rightarrow> xs)"
| "arguments_of _ = []"

definition call_sites :: "node \<Rightarrow> nat" where
  \<comment> \<open>the number of call and construction sites of a unit\<close>
  "call_sites tree =
     length (filter (\<lambda>(parent, n). isCallExpression n \<or> isNewExpression n) (preorder None tree))"

definition method_call_sites :: "node \<Rightarrow> nat" where
  \<comment> \<open>the number of calls through a property access, and of construction sites\<close>
  "method_call_sites tree =
     length (filter (\<lambda>(parent, n). isMethodCall n \<or> isNewExpression n) (preorder None tree))"

fun isRegion :: "node \<Rightarrow> bool" where
  \<comment> \<open>a conditional, loop or try region\<close>
  "isRegion (OtherNode (OtherKind k) r cs) = False"
| "isRegion (OtherNode k r cs) = True"
| "isRegion _ = False"

definition no_regions :: "node \<Rightarrow> bool" where
  "no_regions tree = list_all (\<lambda>(parent, n). \<not> isRegion n) (preorder None tree)"

function well_nested :: "node \<Rightarrow> bool" where
  \<comment> \<open>the text ranges of a parsed tree: a child lies inside its parent, and a node ends
      before its next sibling begins\<close>
  "well_nested n =
     (pos (range_of n) \<le> end_pos (range_of n) \<and>
      list_all (\<lambda>c. pos (range_of n) \<le> pos (range_of c) \<and>
                    end_pos (range_of c) \<le> end_pos (range_of n)) (children n) \<and>
      sorted_wrt (\<lambda>a b. end_pos (range_of a) \<le> pos (range_of b)) (children n) \<and>
      list_all well_nested (children n))"
  by pat_completeness auto
termination
  by (relation "measure size") (auto simp: size_children)

declare well_nested.simps [simp del]

definition event_position :: "js_object \<Rightarrow> (int \<times> int) option" where
  \<comment> \<open>\<open>(lineno, col_offset)\<close> of an event\<close>
  "event_position ev =
     (case (map_of ev ''lineno'', map_of ev ''col_offset'') of
        (Some (JNum l), Some (JNum c)) \<Rightarrow> Some (l, c)
      | _ \<Rightarrow> None)"

definition position_le :: "js_object \<Rightarrow> js_object \<Rightarrow> bool" where
  \<comment> \<open>the first event's source position is before or at the second's\<close>
  "position_le a b =
     (case (event_position a, event_position b) of
        (Some (l1, c1), Some (l2, c2)) \<Rightarrow> l1 < l2 \<or> (l1 = l2 \<and> c1 \<le> c2)
      | _ \<Rightarrow> False)"


definition events_at :: "string \<Rightarrow> node option \<times> node \<Rightarrow> js_object list" where
  \<comment> \<open>what one call of \<open>visit\<close> pushes for its own node, before it descends\<close>
  "events_at sourceCode = (\<lambda>(parent, n).
     method_call_events sourceCode parent n @ constructor_events sourceCode n)"

definition position_at :: "string \<Rightarrow> node \<Rightarrow> int \<times> int" where
  \<comment> \<open>\<open>(lineno, col_offset)\<close> as \<open>visit\<close> computes them from \<open>node.pos\<close>\<close>
  "position_at sourceCode n =
     (let (line, character) = getLineAndCharacterOfPosition sourceCode (pos (range_of n))
      in (int (line + 1), int character))"

definition emitting_sites :: "node \<Rightarrow> (node option \<times> node) list" where
  \<comment> \<open>the method calls and constructions of a unit, each with its parent, in pre-order\<close>
  "emitting_sites tree =
     filter (\<lambda>(parent, n). isMethodCall n \<or> isNewExpression n) (preorder None tree)"


subsection \<open>Parsed units used as examples\<close>

text \<open>
  Each tree is the compiler's parse of the source beside it, with the text ranges of
  its nodes.
\<close>

definition plain_call_source :: string where "plain_call_source = ''foo()''"
definition plain_call_tree :: node where
  "plain_call_tree =
     OtherNode (OtherKind ''SourceFile'') \<lparr>pos = 0, getStart = 0, end_pos = 5\<rparr>
       [OtherNode (OtherKind ''ExpressionStatement'') \<lparr>pos = 0, getStart = 0, end_pos = 5\<rparr>
          [CallExpression \<lparr>pos = 0, getStart = 0, end_pos = 5\<rparr>
             (Identifier \<lparr>pos = 0, getStart = 0, end_pos = 3\<rparr> ''foo'') [] []],
        OtherNode (OtherKind ''EndOfFileToken'') \<lparr>pos = 5, getStart = 5, end_pos = 5\<rparr> []]"

definition chained_source :: string where "chained_source = ''new A().run(f())''"
definition chained_tree :: node where
  "chained_tree =
     OtherNode (OtherKind ''SourceFile'') \<lparr>pos = 0, getStart = 0, end_pos = 16\<rparr>
       [OtherNode (OtherKind ''ExpressionStatement'') \<lparr>pos = 0, getStart = 0, end_pos = 16\<rparr>
          [CallExpression \<lparr>pos = 0, getStart = 0, end_pos = 16\<rparr>
             (PropertyAccessExpression \<lparr>pos = 0, getStart = 0, end_pos = 11\<rparr>
                (NewExpression \<lparr>pos = 0, getStart = 0, end_pos = 7\<rparr>
                   (Identifier \<lparr>pos = 3, getStart = 4, end_pos = 5\<rparr> ''A'') [] (Some []))
                (Identifier \<lparr>pos = 8, getStart = 8, end_pos = 11\<rparr> ''run''))
             []
             [CallExpression \<lparr>pos = 12, getStart = 12, end_pos = 15\<rparr>
                (Identifier \<lparr>pos = 12, getStart = 12, end_pos = 13\<rparr> ''f'') [] []]],
        OtherNode (OtherKind ''EndOfFileToken'') \<lparr>pos = 16, getStart = 16, end_pos = 16\<rparr> []]"


definition await_source :: string where "await_source = ''await a.b()''"
definition await_tree :: node where
  "await_tree =
     OtherNode (OtherKind ''SourceFile'') \<lparr>pos = 0, getStart = 0, end_pos = 11\<rparr>
       [OtherNode (OtherKind ''ExpressionStatement'') \<lparr>pos = 0, getStart = 0, end_pos = 11\<rparr>
          [AwaitExpression \<lparr>pos = 0, getStart = 0, end_pos = 11\<rparr>
             (CallExpression \<lparr>pos = 5, getStart = 6, end_pos = 11\<rparr>
                (PropertyAccessExpression \<lparr>pos = 5, getStart = 6, end_pos = 9\<rparr>
                   (Identifier \<lparr>pos = 5, getStart = 6, end_pos = 7\<rparr> ''a'')
                   (Identifier \<lparr>pos = 8, getStart = 8, end_pos = 9\<rparr> ''b''))
                [] [])],
        OtherNode (OtherKind ''EndOfFileToken'') \<lparr>pos = 11, getStart = 11, end_pos = 11\<rparr> []]"

definition comment_source :: string where "comment_source = ''a.b(x, /*c*/ y)''"
definition comment_argument :: node where
  "comment_argument = Identifier \<lparr>pos = 6, getStart = 13, end_pos = 14\<rparr> ''y''"
definition comment_tree :: node where
  "comment_tree =
     OtherNode (OtherKind ''SourceFile'') \<lparr>pos = 0, getStart = 0, end_pos = 15\<rparr>
       [OtherNode (OtherKind ''ExpressionStatement'') \<lparr>pos = 0, getStart = 0, end_pos = 15\<rparr>
          [CallExpression \<lparr>pos = 0, getStart = 0, end_pos = 15\<rparr>
             (PropertyAccessExpression \<lparr>pos = 0, getStart = 0, end_pos = 3\<rparr>
                (Identifier \<lparr>pos = 0, getStart = 0, end_pos = 1\<rparr> ''a'')
                (Identifier \<lparr>pos = 2, getStart = 2, end_pos = 3\<rparr> ''b''))
             []
             [Identifier \<lparr>pos = 4, getStart = 4, end_pos = 5\<rparr> ''x'', comment_argument]],
        OtherNode (OtherKind ''EndOfFileToken'') \<lparr>pos = 15, getStart = 15, end_pos = 15\<rparr> []]"

definition two_calls_source :: string where "two_calls_source = ''await a.b(1);c.d(2)''"
definition two_calls_tree :: node where
  "two_calls_tree =
     OtherNode (OtherKind ''SourceFile'') \<lparr>pos = 0, getStart = 0, end_pos = 19\<rparr>
       [OtherNode (OtherKind ''ExpressionStatement'') \<lparr>pos = 0, getStart = 0, end_pos = 13\<rparr>
          [AwaitExpression \<lparr>pos = 0, getStart = 0, end_pos = 12\<rparr>
             (CallExpression \<lparr>pos = 5, getStart = 6, end_pos = 12\<rparr>
                (PropertyAccessExpression \<lparr>pos = 5, getStart = 6, end_pos = 9\<rparr>
                   (Identifier \<lparr>pos = 5, getStart = 6, end_pos = 7\<rparr> ''a'')
                   (Identifier \<lparr>pos = 8, getStart = 8, end_pos = 9\<rparr> ''b''))
                []
                [OtherNode (OtherKind ''NumericLiteral'')
                   \<lparr>pos = 10, getStart = 10, end_pos = 11\<rparr> []])],
        OtherNode (OtherKind ''ExpressionStatement'') \<lparr>pos = 13, getStart = 13, end_pos = 19\<rparr>
          [CallExpression \<lparr>pos = 13, getStart = 13, end_pos = 19\<rparr>
             (PropertyAccessExpression \<lparr>pos = 13, getStart = 13, end_pos = 16\<rparr>
                (Identifier \<lparr>pos = 13, getStart = 13, end_pos = 14\<rparr> ''c'')
                (Identifier \<lparr>pos = 15, getStart = 15, end_pos = 16\<rparr> ''d''))
             []
             [OtherNode (OtherKind ''NumericLiteral'')
                \<lparr>pos = 17, getStart = 17, end_pos = 18\<rparr> []]],
        OtherNode (OtherKind ''EndOfFileToken'') \<lparr>pos = 19, getStart = 19, end_pos = 19\<rparr> []]"

text \<open>
  In the next unit the argument of the call is preceded by a no-break space (U+00A0),
  which the compiler's scanner skips as white space: it lies inside the argument's text
  range, before the argument's own text.
\<close>

definition nbsp_source :: string where "nbsp_source = ''a.b('' @ [CHR 0xA0] @ ''x)''"
definition nbsp_tree :: node where
  "nbsp_tree =
     OtherNode (OtherKind ''SourceFile'') \<lparr>pos = 0, getStart = 0, end_pos = 7\<rparr>
       [OtherNode (OtherKind ''ExpressionStatement'') \<lparr>pos = 0, getStart = 0, end_pos = 7\<rparr>
          [CallExpression \<lparr>pos = 0, getStart = 0, end_pos = 7\<rparr>
             (PropertyAccessExpression \<lparr>pos = 0, getStart = 0, end_pos = 3\<rparr>
                (Identifier \<lparr>pos = 0, getStart = 0, end_pos = 1\<rparr> ''a'')
                (Identifier \<lparr>pos = 2, getStart = 2, end_pos = 3\<rparr> ''b''))
             []
             [Identifier \<lparr>pos = 4, getStart = 5, end_pos = 6\<rparr> ''x'']],
        OtherNode (OtherKind ''EndOfFileToken'') \<lparr>pos = 7, getStart = 7, end_pos = 7\<rparr> []]"


section \<open>The interaction model assembler\<close>

text \<open>
  The assembler runs in the analysis service, whose sources are not part of the
  front-end and extractor files at hand. Its definitions below follow section 4.3 of
  the specification, each marked as such.
\<close>

datatype block_type = If_type | Loop_type | Try_except_type | Try_catch_type | Switch_type

record block_entry =
  entry_type :: block_type
  entry_condition :: string
  entry_start_message_id :: nat
  entry_nesting_level :: nat
  entry_is_loop :: bool
  entry_has_else :: bool

record conditional_block =
  start_message_id :: nat
  end_message_id :: nat
  condition :: string
  type_of_block :: block_type
  nesting_level :: nat
  has_else :: bool
  is_loop :: bool

record 'e message =
  id_message :: nat
  event_of :: 'e
  in_conditional_block :: bool
  is_conditional :: bool

datatype 'e stream_item =
    Call_event 'e
  | Region_enter block_type string bool bool
  | Region_exit

record 'e assembly =
  next_id :: nat
  messages :: "'e message list"
  block_stack :: "block_entry list"
  conditional_blocks :: "conditional_block list"

definition initial_assembly :: "'e assembly" where
  \<comment> \<open>Modelled from the spec: the state at the start of a pass (the pass itself is not
      among the sources); message ids count from 0\<close>
  "initial_assembly = \<lparr>next_id = 0, messages = [], block_stack = [], conditional_blocks = []\<rparr>"

fun assemble_step :: "'e assembly \<Rightarrow> 'e stream_item \<Rightarrow> 'e assembly + 'e assembly" where
  \<comment> \<open>Modelled from the spec: one event of the forward pass of section 4.3, which is not
      among the sources. \<open>Inl\<close> is \<open>MalformedBlockState\<close> (a region exit with no open
      block), carrying what was assembled before the fault.\<close>
  "assemble_step st (Call_event e) =
     Inr (st\<lparr>next_id := Suc (next_id st),
             messages := messages st @
               [\<lparr>id_message = next_id st, event_of = e,
                 in_conditional_block = (block_stack st \<noteq> []),
                 is_conditional = (case block_stack st of [] \<Rightarrow> False
                                   | entry # _ \<Rightarrow> entry_start_message_id entry = next_id st)\<rparr>]\<rparr>)"
| "assemble_step st (Region_enter t c l h) =
     Inr (st\<lparr>block_stack :=
               \<lparr>entry_type = t, entry_condition = c, entry_start_message_id = next_id st,
                entry_nesting_level = length (block_stack st),
                entry_is_loop = l, entry_has_else = h\<rparr> # block_stack st\<rparr>)"
| "assemble_step st Region_exit =
     (case block_stack st of
        [] \<Rightarrow> Inl st
      | entry # rest \<Rightarrow>
          if next_id st = entry_start_message_id entry
          then Inr (st\<lparr>block_stack := rest\<rparr>)
          else Inr (st\<lparr>block_stack := rest,
                       conditional_blocks := conditional_blocks st @
                         [\<lparr>start_message_id = entry_start_message_id entry,
                           end_message_id = next_id st - 1,
                           condition = entry_condition entry,
                           type_of_block = entry_type entry,
                           nesting_level = entry_nesting_level entry,
                           has_else = entry_has_else entry,
                           is_loop = entry_is_loop entry\<rparr>]\<rparr>))"

fun assemble_from :: "'e assembly \<Rightarrow> 'e stream_item list \<Rightarrow> 'e assembly + 'e assembly" where
  \<comment> \<open>Modelled from the spec: the single forward pass over the event stream\<close>
  "assemble_from st [] = Inr st"
| "assemble_from st (item # items) =
     (case assemble_step st item of
        Inl fault \<Rightarrow> Inl fault
      | Inr st' \<Rightarrow> assemble_from st' items)"

definition assemble :: "'e stream_item list \<Rightarrow> 'e assembly + 'e assembly" where
  \<comment> \<open>Modelled from the spec: the assembler of section 4.3 on one unit's event stream\<close>
  "assemble items = assemble_from initial_assembly items"

definition pipeline :: "string \<Rightarrow> node \<Rightarrow> js_object assembly + js_object assembly" where
  \<comment> \<open>Modelled from the spec: the extractor's events, in its order, handed to the
      assembler; the extractor of the sources supplies no region markers\<close>
  "pipeline sourceCode tree = assemble (map Call_event (extract_calls sourceCode tree))"

text \<open>
  The syntactic regions of a unit nest, so a well-bracketed event stream is the
  flattening of a forest of call sites and regions.
\<close>

datatype 'e region_tree =
    Site 'e
  | Region block_type string bool bool "'e region_tree list"

fun flatten :: "'e region_tree \<Rightarrow> 'e stream_item list" where
  "flatten (Site e) = [Call_event e]"
| "flatten (Region t c l h ts) = Region_enter t c l h # concat (map flatten ts) @ [Region_exit]"

fun sites :: "'e region_tree \<Rightarrow> nat" where
  \<comment> \<open>the number of messages that a region encloses\<close>
  "sites (Site e) = 1"
| "sites (Region t c l h ts) = sum_list (map sites ts)"

fun expected_blocks :: "nat \<Rightarrow> nat \<Rightarrow> 'e region_tree \<Rightarrow> conditional_block list"
  and expected_blocks_list :: "nat \<Rightarrow> nat \<Rightarrow> 'e region_tree list \<Rightarrow> conditional_block list" where
  \<comment> \<open>the blocks the claim expects of a region met with \<open>ancestors\<close> open blocks around it
      when the next message id is \<open>first\<close>: inner blocks before outer ones, and none for
      a region without messages\<close>
  "expected_blocks ancestors first (Site e) = []"
| "expected_blocks ancestors first (Region t c l h ts) =
     expected_blocks_list (Suc ancestors) first ts @
     (if sum_list (map sites ts) = 0 then []
      else [\<lparr>start_message_id = first,
              end_message_id = first + sum_list (map sites ts) - 1,
              condition = c, type_of_block = t, nesting_level = ancestors,
              has_else = h, is_loop = l\<rparr>])"
| "expected_blocks_list ancestors first [] = []"
| "expected_blocks_list ancestors first (t # ts) =
     expected_blocks ancestors first t @ expected_blocks_list ancestors (first + sites t) ts"


definition carries_on ::
  "'e assembly \<Rightarrow> nat \<Rightarrow> conditional_block list \<Rightarrow> 'e assembly \<Rightarrow> bool" where
  \<comment> \<open>from \<open>st\<close> the pass has gone on to \<open>st'\<close> by \<open>n\<close> messages and the given
      blocks, with the block stack as it was\<close>
  "carries_on st n blocks st' =
     (next_id st' = next_id st + n \<and>
      length (messages st') = length (messages st) + n \<and>
      block_stack st' = block_stack st \<and>
      conditional_blocks st' = conditional_blocks st @ blocks)"

definition pass_invariant :: "'e assembly \<Rightarrow> bool" where
  \<comment> \<open>what holds all along a pass: ids count the messages, an open entry starts at
      an id not beyond the next one, an emitted block runs between two emitted
      messages, and an open entry's level is the number of entries under it\<close>
  "pass_invariant st =
     (map id_message (messages st) = [0..<next_id st] \<and>
      (\<forall>entry \<in> set (block_stack st). entry_start_message_id entry \<le> next_id st) \<and>
      (\<forall>b \<in> set (conditional_blocks st).
         start_message_id b \<le> end_message_id b \<and> end_message_id b < next_id st) \<and>
      map entry_nesting_level (block_stack st) = rev [0..<length (block_stack st)])"

definition nested_units :: "string region_tree list" where
  "nested_units =
     [Site ''find_user'',
      Region If_type ''user'' False False
        [Site ''TokenService'',
         Region Loop_type ''retries'' True False [Site ''generate_token''],
         Region Try_catch_type [] False False []]]"


section \<open>The sequence diagram renderers\<close>

subsection \<open>Plain objects used as dictionaries\<close>

text \<open>
  \<open>lifelines\<close>, \<open>messagePositions\<close> and \<open>executionTracks\<close> are plain objects created
  by \<open>{}\<close>: a read \<open>obj[key]\<close> that finds no own property goes on to
  \<open>Object.prototype\<close> and finds its members there. The keys are written in insertion
  order. The key \<open>__proto__\<close> is also special when written (the assignment replaces the
  prototype); the model covers the dictionaries whose written keys are other names.
\<close>

definition object_prototype_properties :: "string list" where
  "object_prototype_properties =
     [''constructor'', ''__defineGetter__'', ''__defineSetter__'', ''hasOwnProperty'',
      ''__lookupGetter__'', ''__lookupSetter__'', ''isPrototypeOf'',
      ''propertyIsEnumerable'', ''toString'', ''valueOf'', ''__proto__'',
      ''toLocaleString'']"

datatype 'v property = Own 'v | Inherited | Undefined

definition get_property :: "(string \<times> 'v) list \<Rightarrow> string \<Rightarrow> 'v property" where
  \<comment> \<open>\<open>obj[key]\<close>\<close>
  "get_property obj key =
     (case map_of obj key of
        Some v \<Rightarrow> Own v
      | None \<Rightarrow> if key \<in> set object_prototype_properties then Inherited else Undefined)"

definition set_property :: "(string \<times> 'v) list \<Rightarrow> string \<Rightarrow> 'v \<Rightarrow> (string \<times> 'v) list" where
  \<comment> \<open>\<open>obj[key] = v\<close>: a key that exists keeps its place\<close>
  "set_property obj key v = AList.update key v obj"

fun truthy :: "'v property \<Rightarrow> bool" where
  \<comment> \<open>the stored values are objects and the inherited members are functions or
      objects, all of them truthy; only \<open>undefined\<close> is not\<close>
  "truthy Undefined = False"
| "truthy _ = True"

fun field_of :: "'v property \<Rightarrow> 'v option" where
  \<comment> \<open>reading the field that a stored value carries; an inherited member has no such
      field and the read gives \<open>undefined\<close>, here \<open>None\<close>\<close>
  "field_of (Own v) = Some v"
| "field_of _ = None"

definition truthy_name :: "string option \<Rightarrow> bool" where
  \<comment> \<open>the truth value of an optional string: present and not empty\<close>
  "truthy_name s = (case s of None \<Rightarrow> False | Some v \<Rightarrow> v \<noteq> [])"

definition actorSpacing :: int where "actorSpacing = 150"
definition actorY :: int where "actorY = 50"
definition messageHeight :: int where "messageHeight = 50"
definition trackSpacing :: int where "trackSpacing = 20"

definition lifelines_of :: "string list \<Rightarrow> (string \<times> int) list" where
  \<comment> \<open>\<open>data.participants.forEach\<close>: \<open>lifelines[participant] = { actor, x }\<close>, of which
      the model keeps \<open>x\<close>\<close>
  "lifelines_of participants =
     foldl (\<lambda>lifelines (index, participant).
              set_property lifelines participant (int index * actorSpacing + 100))
       [] (enumerate 0 participants)"

record 'm link =
  link_message :: 'm
  link_fromX :: "int option"
  link_toX :: "int option"
  link_y :: int

subsection \<open>\<open>AsyncSequenceDiagram\<close>\<close>

text \<open>
  Of a message the model keeps the fields that decide what is drawn where; the flags
  that only choose colours and dashes are left out.
\<close>

record async_message =
  from_name :: string
  to_name :: string
  method_name :: string
  creates_track :: "string option"
  returns_to_track :: "string option"

record region =
  startY :: int
  endY :: int
  region_name :: string

record track_state =
  currentY :: int
  regionStartY :: int
  currentRegion :: string
  regions :: "region list"
  links :: "async_message link list"

definition render_async_message ::
  "(string \<times> int) list \<Rightarrow> track_state \<Rightarrow> async_message \<Rightarrow> track_state" where
  \<comment> \<open>the callback of \<open>track.messages.forEach\<close>\<close>
  "render_async_message lifelines st message =
     (let fromLifeline = get_property lifelines (from_name message);
          toLifeline = get_property lifelines (to_name message)
      in if \<not> truthy fromLifeline \<or> \<not> truthy toLifeline then st
         else
           let st1 = (case creates_track message of
                        None \<Rightarrow> st
                      | Some c \<Rightarrow> if c = [] then st
                                  else st\<lparr>regionStartY := currentY st, currentRegion := c\<rparr>);
               st2 = (if truthy_name (returns_to_track message) \<and> currentRegion st1 \<noteq> []
                      then st1\<lparr>regions := regions st1 @
                                 [\<lparr>startY = regionStartY st1,
                                   endY = currentY st1 + messageHeight,
                                   region_name = currentRegion st1\<rparr>],
                               currentRegion := []\<rparr>
                      else st1)
           in st2\<lparr>links := links st2 @
                      [\<lparr>link_message = message, link_fromX = field_of fromLifeline,
                        link_toX = field_of toLifeline, link_y = currentY st2\<rparr>],
                    currentY := currentY st2 + messageHeight\<rparr>)"

definition start_track :: "int \<Rightarrow> track_state" where
  \<comment> \<open>\<open>currentY = track.y\<close>, \<open>regionStartY = 0\<close>, \<open>currentRegion = ''\<close>\<close>
  "start_track y =
     \<lparr>currentY = y, regionStartY = 0, currentRegion = [], regions = [], links = []\<rparr>"

definition close_track :: "track_state \<Rightarrow> track_state" where
  \<comment> \<open>after the loop: a region that is still open ends at \<open>currentY\<close>\<close>
  "close_track st =
     (if currentRegion st \<noteq> []
      then st\<lparr>regions := regions st @
                 [\<lparr>startY = regionStartY st, endY = currentY st,
                   region_name = currentRegion st\<rparr>]\<rparr>
      else st)"

definition render_track :: "(string \<times> int) list \<Rightarrow> int \<Rightarrow> async_message list \<Rightarrow> track_state" where
  \<comment> \<open>one turn of the loop over \<open>executionTracks\<close>, for a track at height \<open>y\<close>\<close>
  "render_track lifelines y trackMessages =
     close_track (foldl (render_async_message lifelines) (start_track y) trackMessages)"

record async_data =
  async_participants :: "string list"
  async_messages :: "async_message list"
  execution_tracks :: "(string \<times> int list) list"

definition message_at :: "'m list \<Rightarrow> int \<Rightarrow> 'm option" where
  \<comment> \<open>\<open>data.messages[idx]\<close>: \<open>undefined\<close>, here \<open>None\<close>, outside the array\<close>
  "message_at ms idx = (if 0 \<le> idx \<and> idx < int (length ms) then Some (ms ! nat idx) else None)"

text \<open>
  \<open>execution_tracks\<close> lists the tracks in the order in which \<open>for ... in\<close> enumerates
  \<open>data.execution_tracks\<close>; the track names are taken not to be array indices, which
  an object enumerates before its other keys.
\<close>

definition group_tracks :: "async_data \<Rightarrow> (string \<times> async_message option list) list" where
  \<comment> \<open>\<open>executionTracks\<close>: the track \<open>main\<close> first, then the tracks of
      \<open>data.execution_tracks\<close> in its order\<close>
  "group_tracks data =
     foldl (\<lambda>tracks (trackName, messageIndices).
              set_property tracks trackName (map (message_at (async_messages data)) messageIndices))
       [(''main'', [])] (execution_tracks data)"

fun track_positions :: "int \<Rightarrow> (string \<times> 'a list) list \<Rightarrow> int list" where
  \<comment> \<open>\<open>track.y\<close> of each track: the messages of the tracks before it, and the spacing\<close>
  "track_positions nextY [] = []"
| "track_positions nextY ((trackName, trackMessages) # tracks) =
     nextY # track_positions (nextY + int (length trackMessages) * messageHeight + trackSpacing) tracks"

definition AsyncSequenceDiagram :: "async_data \<Rightarrow> js_error + (string \<times> track_state) list" where
  \<comment> \<open>the rendering effect: the tracks with their links and regions, or the
      \<open>TypeError\<close> of reading \<open>message.from\<close> of an \<open>undefined\<close> message\<close>
  "AsyncSequenceDiagram data =
     (let lifelines = lifelines_of (async_participants data);
          tracks = group_tracks data
      in if \<exists>(trackName, trackMessages) \<in> set tracks. None \<in> set trackMessages
         then Inl TypeError
         else Inr (map (\<lambda>((trackName, trackMessages), y).
                          (trackName, render_track lifelines y (map the trackMessages)))
                     (zip tracks (track_positions (actorY + 50) tracks))))"

subsection \<open>\<open>ConditionalSequenceDiagram\<close>\<close>

record cond_message =
  cm_from :: string
  cm_to :: string
  cm_method :: string
  cm_id :: string

record cond_block =
  cb_start_message_id :: string
  cb_end_message_id :: string
  cb_condition :: string
  cb_type :: string
  cb_has_else :: bool
  cb_nesting_level :: int
  cb_is_loop :: bool

datatype block_shape = LoopBlock | TryBlock | ConditionalBlock

record block_element =
  shape :: block_shape
  blockY :: "int option"
  blockHeight :: "int option"
  blockId :: string

record cond_state =
  cond_currentY :: int
  messagePositions :: "(string \<times> int) list"
  cond_links :: "cond_message link list"

definition render_cond_message ::
  "(string \<times> int) list \<Rightarrow> cond_state \<Rightarrow> cond_message \<Rightarrow> cond_state" where
  \<comment> \<open>the callback of \<open>data.messages.forEach\<close>; of \<open>messagePositions[message.id]\<close>
      the model keeps \<open>y\<close>\<close>
  "render_cond_message lifelines st message =
     (let fromLifeline = get_property lifelines (cm_from message);
          toLifeline = get_property lifelines (cm_to message)
      in if \<not> truthy fromLifeline \<or> \<not> truthy toLifeline then st
         else st\<lparr>cond_links := cond_links st @
                     [\<lparr>link_message = message, link_fromX = field_of fromLifeline,
                       link_toX = field_of toLifeline, link_y = cond_currentY st\<rparr>],
                   messagePositions :=
                     set_property (messagePositions st) (cm_id message) (cond_currentY st),
                   cond_currentY := cond_currentY st + messageHeight\<rparr>)"

definition render_block :: "(string \<times> int) list \<Rightarrow> cond_block \<Rightarrow> block_element option" where
  \<comment> \<open>the callback of \<open>data.conditional_blocks.forEach\<close>: \<open>None\<close> when it returns
      early; arithmetic on an \<open>undefined\<close> \<open>y\<close> gives no number, here \<open>None\<close>\<close>
  "render_block positions block =
     (let startPos = get_property positions (cb_start_message_id block);
          endPos = get_property positions (cb_end_message_id block)
      in if \<not> truthy startPos \<or> \<not> truthy endPos then None
         else Some
           \<lparr>shape = (if cb_is_loop block then LoopBlock
                     else if cb_type block = ''try_except'' \<or> cb_type block = ''try_catch''
                     then TryBlock else ConditionalBlock),
            blockY = map_option (\<lambda>y. y - 15) (field_of startPos),
            blockHeight = (case (field_of startPos, field_of endPos) of
                             (Some s, Some e) \<Rightarrow> Some ((e - s) + 30)
                           | _ \<Rightarrow> None),
            blockId = cb_start_message_id block @ ''_to_'' @ cb_end_message_id block\<rparr>)"

record cond_data =
  cond_participants :: "string list"
  cond_messages :: "cond_message list"
  conditional_blocks_of :: "cond_block list"

record cond_diagram =
  drawn_links :: "cond_message link list"
  drawn_blocks :: "block_element list"

definition ConditionalSequenceDiagram :: "cond_data \<Rightarrow> cond_diagram" where
  \<comment> \<open>the rendering effect: the links and the blocks added to the graph\<close>
  "ConditionalSequenceDiagram data =
     (let lifelines = lifelines_of (cond_participants data);
          st = foldl (render_cond_message lifelines)
                 \<lparr>cond_currentY = actorY + 50, messagePositions = [], cond_links = []\<rparr>
                 (cond_messages data)
      in \<lparr>drawn_links = cond_links st,
          drawn_blocks = List.map_filter (render_block (messagePositions st))
                           (conditional_blocks_of data)\<rparr>)"


subsection \<open>What the renderers draw, and example diagrams\<close>

definition drawn :: "(string \<times> int) list \<Rightarrow> async_message \<Rightarrow> bool" where
  \<comment> \<open>the guard \<open>if (!fromLifeline || !toLifeline) return\<close> lets the message through\<close>
  "drawn lifelines message =
     (truthy (get_property lifelines (from_name message)) \<and>
      truthy (get_property lifelines (to_name message)))"

definition quiet :: "async_message \<Rightarrow> bool" where
  \<comment> \<open>a message that neither opens nor closes a region\<close>
  "quiet message =
     (\<not> truthy_name (creates_track message) \<and> \<not> truthy_name (returns_to_track message))"

definition starts_below :: "track_state \<Rightarrow> bool" where
  \<comment> \<open>every region pushed so far, and the open one, starts above the current row\<close>
  "starts_below st =
     ((\<forall>r \<in> set (regions st). startY r < currentY st) \<and>
      (currentRegion st \<noteq> [] \<longrightarrow> regionStartY st < currentY st))"

definition starts_from :: "int \<Rightarrow> track_state \<Rightarrow> bool" where
  \<comment> \<open>the current row, and the start of the open region, are at \<open>lo\<close> or below it\<close>
  "starts_from lo st =
     (lo \<le> currentY st \<and> (currentRegion st \<noteq> [] \<longrightarrow> lo \<le> regionStartY st))"

definition diagram_regions ::
  "js_error + (string \<times> track_state) list \<Rightarrow> js_error + (string \<times> region list) list" where
  \<comment> \<open>the regions pushed for each track\<close>
  "diagram_regions result = map_sum id (map (\<lambda>(trackName, st). (trackName, regions st))) result"

definition spawn_message :: "string \<Rightarrow> async_message" where
  "spawn_message track =
     \<lparr>from_name = ''caller'', to_name = ''worker'', method_name = ''create_task'',
      creates_track = Some track, returns_to_track = None\<rparr>"

definition plain_message :: async_message where
  "plain_message =
     \<lparr>from_name = ''caller'', to_name = ''worker'', method_name = ''log'',
      creates_track = None, returns_to_track = None\<rparr>"

definition join_message :: async_message where
  "join_message =
     \<lparr>from_name = ''caller'', to_name = ''worker'', method_name = ''result'',
      creates_track = None, returns_to_track = Some ''main''\<rparr>"

definition spawn_join_message :: "string \<Rightarrow> async_message" where
  \<comment> \<open>a message that carries both flags\<close>
  "spawn_join_message track =
     \<lparr>from_name = ''caller'', to_name = ''worker'', method_name = ''run'',
      creates_track = Some track, returns_to_track = Some ''main''\<rparr>"

definition two_spawns_data :: async_data where
  "two_spawns_data =
     \<lparr>async_participants = [''caller'', ''worker''],
      async_messages = [spawn_message ''task_1'', spawn_message ''task_2''],
      execution_tracks = [(''main'', [0, 1])]\<rparr>"

definition unknown_sender_data :: cond_data where
  "unknown_sender_data =
     \<lparr>cond_participants = [''A''],
      cond_messages = [\<lparr>cm_from = ''constructor'', cm_to = ''A'', cm_method = ''run'',
                        cm_id = ''m1''\<rparr>],
      conditional_blocks_of = [\<lparr>cb_start_message_id = ''toString'', cb_end_message_id = ''m1'',
                                cb_condition = ''ready'', cb_type = ''if'', cb_has_else = False,
                                cb_nesting_level = 0, cb_is_loop = False\<rparr>]\<rparr>"


section \<open>The structure service\<close>

text \<open>
  \<open>fetch\<close> is a parameter: it maps the request, a path and the \<open>exclude_dirs\<close> values
  of its query string, to the response or to the error it rejects with. Of a response
  the model keeps \<open>ok\<close>, \<open>statusText\<close> and what \<open>response.json()\<close> resolves to, \<open>None\<close>
  when the body is no JSON text and the call rejects. JSON numbers are integers here.
\<close>

record response =
  ok :: bool
  statusText :: string
  json_body :: "json option"

fun truthy_json :: "json \<Rightarrow> bool" where
  "truthy_json JNull = False"
| "truthy_json (JBool b) = b"
| "truthy_json (JNum n) = (n \<noteq> 0)"
| "truthy_json (JStr s) = (s \<noteq> [])"
| "truthy_json (JArr xs) = True"
| "truthy_json (JObj kvs) = True"

fun detail_of :: "json \<Rightarrow> js_error + json option" where
  \<comment> \<open>\<open>error.detail\<close>: a \<open>TypeError\<close> on \<open>null\<close>, \<open>undefined\<close> (here \<open>None\<close>) where the
      value has no such property\<close>
  "detail_of JNull = Inl TypeError"
| "detail_of (JObj kvs) = Inr (map_of kvs ''detail'')"
| "detail_of _ = Inr None"

definition request_query :: "string list option \<Rightarrow> string list" where
  \<comment> \<open>\<open>if (excludeDirs && excludeDirs.length > 0)\<close>: one \<open>exclude_dirs\<close> parameter per
      directory\<close>
  "request_query excludeDirs = (case excludeDirs of None \<Rightarrow> [] | Some dirs \<Rightarrow> dirs)"

definition getRepositoryStructure ::
  "(string \<Rightarrow> string list \<Rightarrow> js_error + response) \<Rightarrow> string \<Rightarrow> string list option
     \<Rightarrow> js_error + json" where
  "getRepositoryStructure fetch repositoryId excludeDirs =
     (case fetch (''/api/structure/tree/'' @ repositoryId) (request_query excludeDirs) of
        Inl rejected \<Rightarrow> Inl rejected
      | Inr response \<Rightarrow>
          if \<not> ok response then
            (let error = (case json_body response of None \<Rightarrow> JObj [] | Some v \<Rightarrow> v)
             in case detail_of error of
                  Inl thrown \<Rightarrow> Inl thrown
                | Inr detail \<Rightarrow>
                    (case detail of
                       Some d \<Rightarrow>
                         if truthy_json d then Inl (Error d)
                         else Inl (Error (JStr (''Failed to fetch repository structure: '' @
                                                statusText response)))
                     | None \<Rightarrow>
                         Inl (Error (JStr (''Failed to fetch repository structure: '' @
                                           statusText response)))))
          else (case json_body response of None \<Rightarrow> Inl SyntaxError | Some v \<Rightarrow> Inr v))"

definition getRepositoryDependencies ::
  "(string \<Rightarrow> string list \<Rightarrow> js_error + response) \<Rightarrow> string \<Rightarrow> string list option
     \<Rightarrow> js_error + json" where
  "getRepositoryDependencies fetch repositoryId excludeDirs =
     (case fetch (''/api/structure/dependencies/'' @ repositoryId) (request_query excludeDirs) of
        Inl rejected \<Rightarrow> Inl rejected
      | Inr response \<Rightarrow>
          if \<not> ok response then
            (let error = (case json_body response of None \<Rightarrow> JObj [] | Some v \<Rightarrow> v)
             in case detail_of error of
                  Inl thrown \<Rightarrow> Inl thrown
                | Inr detail \<Rightarrow>
                    (case detail of
                       Some d \<Rightarrow>
                         if truthy_json d then Inl (Error d)
                         else Inl (Error (JStr (''Failed to fetch repository dependencies: '' @
                                                statusText response)))
                     | None \<Rightarrow>
                         Inl (Error (JStr (''Failed to fetch repository dependencies: '' @
                                           statusText response)))))
          else (case json_body response of None \<Rightarrow> Inl SyntaxError | Some v \<Rightarrow> Inr v))"

definition detail_field :: "response \<Rightarrow> json option" where
  \<comment> \<open>the \<open>detail\<close> field of the response body, when the body is an object that has one\<close>
  "detail_field response =
     (case json_body response of Some (JObj kvs) \<Rightarrow> map_of kvs ''detail'' | _ \<Rightarrow> None)"

definition not_found_response :: "json option \<Rightarrow> response" where
  "not_found_response body = \<lparr>ok = False, statusText = ''Not Found'', json_body = body\<rparr>"

definition responds :: "response \<Rightarrow> string \<Rightarrow> string list \<Rightarrow> js_error + response" where
  \<comment> \<open>a \<open>fetch\<close> that resolves to the given response\<close>
  "responds r url query = Inr r"


section \<open>Dependency cycle detection\<close>

text \<open>
  The dependency graph assembler runs in the analysis service and is not among the
  sources at hand; the front end only displays the cycles it is sent. The definitions
  below follow section 4.4 of the specification, each marked as such.
\<close>

datatype edge_type = Internal | External

record dependency_edge =
  edge_source :: string
  edge_target :: string
  type_of_edge :: edge_type

definition internal_edges :: "dependency_edge list \<Rightarrow> (string \<times> string) list" where
  \<comment> \<open>Modelled from the spec: the internal-edge-only graph on which cycle detection
      runs (the assembler is not among the sources)\<close>
  "internal_edges edges =
     map (\<lambda>e. (edge_source e, edge_target e)) (filter (\<lambda>e. type_of_edge e = Internal) edges)"

fun first_seen :: "'a list \<Rightarrow> 'a list" where
  \<comment> \<open>Modelled from the spec: the order of discovery, each element where it first
      appears\<close>
  "first_seen [] = []"
| "first_seen (x # xs) = x # filter (\<lambda>y. y \<noteq> x) (first_seen xs)"

definition discovered :: "(string \<times> string) list \<Rightarrow> string list" where
  \<comment> \<open>Modelled from the spec: the nodes in node discovery order, reading the edges in
      their order, the source before the target\<close>
  "discovered es = first_seen (concat (map (\<lambda>(a, b). [a, b]) es))"

definition reaches :: "(string \<times> string) list \<Rightarrow> string \<Rightarrow> string \<Rightarrow> bool" where
  \<comment> \<open>Modelled from the spec: a walk of at least one edge leads from \<open>a\<close> to \<open>b\<close>\<close>
  "reaches es a b = ((a, b) \<in> (set es)\<^sup>+)"

definition same_component :: "(string \<times> string) list \<Rightarrow> string \<Rightarrow> string \<Rightarrow> bool" where
  \<comment> \<open>Modelled from the spec: the two nodes lie in one strongly connected component\<close>
  "same_component es a b = (a = b \<or> (reaches es a b \<and> reaches es b a))"

definition component :: "(string \<times> string) list \<Rightarrow> string \<Rightarrow> string list" where
  \<comment> \<open>Modelled from the spec: the strongly connected component of a node, in discovery
      order\<close>
  "component es v = filter (same_component es v) (discovered es)"

definition reported :: "(string \<times> string) list \<Rightarrow> string \<Rightarrow> bool" where
  \<comment> \<open>Modelled from the spec: a component is reported at its first discovered node, when
      it has more than one node or is a self-loop\<close>
  "reported es v =
     (case component es v of
        [] \<Rightarrow> False
      | first # others \<Rightarrow> first = v \<and> (others \<noteq> [] \<or> (v, v) \<in> set es))"

definition detect_cycles :: "(string \<times> string) list \<Rightarrow> string list list" where
  \<comment> \<open>Modelled from the spec: the cycle list of section 4.4, one \<open>Cycle\<close> per reported
      component in discovery order, each a sequence of node ids whose first id repeats
      as its last\<close>
  "detect_cycles es =
     concat (map (\<lambda>v. if reported es v then [component es v @ [v]] else []) (discovered es))"

definition dependency_cycles :: "dependency_edge list \<Rightarrow> string list list" where
  \<comment> \<open>Modelled from the spec: cycle detection on the edges of a dependency graph\<close>
  "dependency_cycles edges = detect_cycles (internal_edges edges)"

definition cycle_length :: "string list \<Rightarrow> nat" where
  \<comment> \<open>Modelled from the spec: the length of a \<open>Cycle\<close>, its node ids without the
      repeated first one\<close>
  "cycle_length c = length c - 1"

definition on_cycle :: "(string \<times> string) list \<Rightarrow> string \<Rightarrow> bool" where
  \<comment> \<open>the claim's words: the node's component has more than one node, or the node has
      a self-loop\<close>
  "on_cycle es v = ((\<exists>u. u \<noteq> v \<and> same_component es v u) \<or> (v, v) \<in> set es)"

definition internal_edge :: "string \<Rightarrow> string \<Rightarrow> dependency_edge" where
  "internal_edge a b = \<lparr>edge_source = a, edge_target = b, type_of_edge = Internal\<rparr>"

definition triangle_edges :: "dependency_edge list" where
  "triangle_edges =
     [internal_edge ''A'' ''B'', internal_edge ''B'' ''C'', internal_edge ''C'' ''A'']"

definition chain_edges :: "dependency_edge list" where
  "chain_edges = [internal_edge ''A'' ''B'', internal_edge ''B'' ''C'']"


section \<open>Facts about strings\<close>





section \<open>Facts about the call extractor\<close>

lemma concat_map_concat:
  "concat (map f (concat xss)) = concat (map (\<lambda>xs. concat (map f xs)) xss)"
  by (induction xss) auto

lemma visit_preorder:
  "visit sourceCode parent n = concat (map (events_at sourceCode) (preorder parent n))"
proof (induction sourceCode parent n rule: visit.induct)
  case (1 sourceCode parent n)
  have "concat (map (visit sourceCode (Some n)) (children n)) =
        concat (map (\<lambda>c. concat (map (events_at sourceCode) (preorder (Some n) c))) (children n))"
    using 1 by (auto intro!: arg_cong[where f = concat])
  then show ?case
    by (subst visit.simps, subst preorder.simps)
       (simp add: events_at_def concat_map_concat comp_def)
qed

lemma length_events_at:
  "length (events_at sourceCode (parent, n)) = (if isMethodCall n \<or> isNewExpression n then 1 else 0)"
  by (cases "(sourceCode, parent, n)" rule: method_call_events.cases)
     (auto simp: events_at_def Let_def split_def)

lemma length_concat_filter:
  assumes "\<And>x. length (f x) = (if P x then 1 else 0)"
  shows "length (concat (map f xs)) = length (filter P xs)"
  by (induction xs) (auto simp: assms)

lemma length_visit:
  "length (visit sourceCode parent n) =
     length (filter (\<lambda>(parent, n). isMethodCall n \<or> isNewExpression n) (preorder parent n))"
  unfolding visit_preorder
proof (rule length_concat_filter)
  fix x :: "node option \<times> node"
  obtain q m where x: "x = (q, m)" by (cases x)
  show "length (events_at sourceCode x) =
        (if (case x of (parent, n) \<Rightarrow> isMethodCall n \<or> isNewExpression n) then 1 else 0)"
    unfolding x by (simp only: length_events_at prod.case)
qed

lemma filter_length_eq: "length (filter P xs) = length xs \<Longrightarrow> filter P xs = xs"
proof (induction xs)
  case Nil
  then show ?case by simp
next
  case (Cons x xs)
  have "length (filter P xs) \<le> length xs" by simp
  then have "length (filter P xs) \<noteq> Suc (length xs)" by linarith
  with Cons show ?case by (auto split: if_splits)
qed

lemma line_and_character_mono:
  assumes "p \<le> q"
    and "getLineAndCharacterOfPosition text p = (l1, c1)"
    and "getLineAndCharacterOfPosition text q = (l2, c2)"
  shows "l1 < l2 \<or> (l1 = l2 \<and> c1 \<le> c2)"
proof -
  let ?starts = "computeLineStarts text"
  let ?A = "filter (\<lambda>s. s \<le> p) ?starts" and ?B = "filter (\<lambda>s. s \<le> q) ?starts"
  have AB: "?A = filter (\<lambda>s. s \<le> p) ?B"
    using assms(1) by (auto intro: filter_cong)
  have nonempty: "?A \<noteq> []" by (simp add: computeLineStarts_def)
  have le: "length ?A \<le> length ?B" by (subst AB) (rule length_filter_le)
  have eqs: "l1 = length ?A - 1" "c1 = p - last ?A" "l2 = length ?B - 1" "c2 = q - last ?B"
    using assms(2,3) by (simp_all add: getLineAndCharacterOfPosition_def Let_def)
  show ?thesis
  proof (cases "length ?A = length ?B")
    case True
    then have "?A = ?B" using AB filter_length_eq by metis
    then show ?thesis using eqs assms(1) by auto
  next
    case False
    with le nonempty have "length ?A - 1 < length ?B - 1"
      by (cases ?A) auto
    then show ?thesis using eqs by simp
  qed
qed

lemma event_position_events_at:
  "ev \<in> set (events_at sourceCode (parent, n)) \<Longrightarrow>
     event_position ev = Some (position_at sourceCode n)"
  by (cases "(sourceCode, parent, n)" rule: method_call_events.cases)
     (auto simp: events_at_def Let_def split_def event_position_def position_at_def)

lemma position_at_mono:
  assumes "pos (range_of a) \<le> pos (range_of b)"
    and "x \<in> set (events_at sourceCode (p, a))" and "y \<in> set (events_at sourceCode (q, b))"
  shows "position_le x y"
proof -
  obtain l1 c1 where a: "getLineAndCharacterOfPosition sourceCode (pos (range_of a)) = (l1, c1)"
    by (cases "getLineAndCharacterOfPosition sourceCode (pos (range_of a))")
  obtain l2 c2 where b: "getLineAndCharacterOfPosition sourceCode (pos (range_of b)) = (l2, c2)"
    by (cases "getLineAndCharacterOfPosition sourceCode (pos (range_of b))")
  from line_and_character_mono[OF assms(1) a b]
  show ?thesis
    using event_position_events_at[OF assms(2)] event_position_events_at[OF assms(3)] a b
    by (auto simp: position_le_def position_at_def)
qed

lemma sorted_wrt_concat:
  "sorted_wrt R (concat xss) \<longleftrightarrow>
     (\<forall>xs \<in> set xss. sorted_wrt R xs) \<and>
     sorted_wrt (\<lambda>xs ys. \<forall>x \<in> set xs. \<forall>y \<in> set ys. R x y) xss"
  by (induction xss) (auto simp: sorted_wrt_append)

lemma preorder_inside:
  "well_nested n \<Longrightarrow> (q, m) \<in> set (preorder parent n) \<Longrightarrow>
     pos (range_of n) \<le> pos (range_of m) \<and> end_pos (range_of m) \<le> end_pos (range_of n) \<and>
     pos (range_of m) \<le> end_pos (range_of m)"
proof (induction parent n arbitrary: q m rule: preorder.induct)
  case (1 parent n)
  from "1.prems"(2) consider "(q, m) = (parent, n)"
    | c where "c \<in> set (children n)" "(q, m) \<in> set (preorder (Some n) c)"
    by (subst (asm) preorder.simps) auto
  then show ?case
  proof cases
    case 1
    then show ?thesis using "1.prems"(1) by (subst (asm) well_nested.simps) auto
  next
    case 2
    from "1.prems"(1) 2(1)
    have c: "pos (range_of n) \<le> pos (range_of c)" "end_pos (range_of c) \<le> end_pos (range_of n)"
      "well_nested c"
      by (subst (asm) well_nested.simps, auto simp: list_all_iff)+
    from "1.IH"[OF 2(1) c(3) 2(2)] c show ?thesis by auto
  qed
qed

lemma sorted_preorder:
  "well_nested n \<Longrightarrow>
     sorted_wrt (\<lambda>a b. pos (range_of (snd a)) \<le> pos (range_of (snd b))) (preorder parent n)"
proof (induction parent n rule: preorder.induct)
  case (1 parent n)
  let ?R = "\<lambda>a b. pos (range_of (snd a)) \<le> pos (range_of (snd b))"
  from "1.prems"
  have kids: "\<forall>c \<in> set (children n). pos (range_of n) \<le> pos (range_of c) \<and> well_nested c"
    and sibs: "sorted_wrt (\<lambda>a b. end_pos (range_of a) \<le> pos (range_of b)) (children n)"
    by (subst (asm) well_nested.simps, auto simp: list_all_iff)+
  have head: "\<forall>x \<in> set (concat (map (preorder (Some n)) (children n))). ?R (parent, n) x"
  proof
    fix x assume "x \<in> set (concat (map (preorder (Some n)) (children n)))"
    then obtain c where c: "c \<in> set (children n)" "x \<in> set (preorder (Some n) c)" by auto
    with kids preorder_inside[of c "fst x" "snd x" "Some n"] show "?R (parent, n) x" by force
  qed
  have each: "\<forall>xs \<in> set (map (preorder (Some n)) (children n)). sorted_wrt ?R xs"
    using "1.IH" kids by auto
  have between: "sorted_wrt (\<lambda>xs ys. \<forall>x \<in> set xs. \<forall>y \<in> set ys. ?R x y)
                   (map (preorder (Some n)) (children n))"
    unfolding sorted_wrt_map
  proof (rule sorted_wrt_mono_rel[OF _ sibs])
    fix a b assume ab: "a \<in> set (children n)" "b \<in> set (children n)"
      "end_pos (range_of a) \<le> pos (range_of b)"
    show "\<forall>x \<in> set (preorder (Some n) a). \<forall>y \<in> set (preorder (Some n) b). ?R x y"
    proof (intro ballI)
      fix x y assume "x \<in> set (preorder (Some n) a)" "y \<in> set (preorder (Some n) b)"
      with kids ab preorder_inside[of a "fst x" "snd x" "Some n"]
        preorder_inside[of b "fst y" "snd y" "Some n"]
      show "?R x y" by force
    qed
  qed
  have "sorted_wrt ?R ((parent, n) # concat (map (preorder (Some n)) (children n)))"
    using head each between by (simp add: sorted_wrt_concat)
  then show ?case by (subst preorder.simps)
qed

lemma sorted_events:
  "sorted_wrt (\<lambda>a b. pos (range_of (snd a)) \<le> pos (range_of (snd b))) xs \<Longrightarrow>
     sorted_wrt position_le (concat (map (events_at sourceCode) xs))"
proof (induction xs)
  case Nil
  then show ?case by simp
next
  case (Cons x xs)
  obtain p a where x: "x = (p, a)" by (cases x)
  have own: "sorted_wrt position_le (events_at sourceCode x)"
  proof -
    have "length (events_at sourceCode x) \<le> 1" unfolding x by (simp add: length_events_at)
    then show ?thesis by (cases "events_at sourceCode x") auto
  qed
  have cross: "position_le u v"
    if "u \<in> set (events_at sourceCode x)" "v \<in> set (concat (map (events_at sourceCode) xs))" for u v
  proof -
    from that(2) obtain y where y: "y \<in> set xs" "v \<in> set (events_at sourceCode y)" by auto
    obtain q b where yb: "y = (q, b)" by (cases y)
    from Cons.prems y(1) have "pos (range_of a) \<le> pos (range_of b)" using x yb by auto
    then show ?thesis using position_at_mono that(1) y(2) x yb by blast
  qed
  from Cons show ?case by (auto simp: sorted_wrt_append own cross)
qed

lemma events_at_site:
  assumes "ev \<in> set (events_at sourceCode (parent, site))"
  shows "(isMethodCall site \<and>
          ev = [(''caller'', JStr (substring sourceCode
                   (pos (range_of (hd (children (hd (children site))))))
                   (end_pos (range_of (hd (children (hd (children site)))))))),
                (''method'', JStr (text_of (hd (tl (children (hd (children site))))))),
                (''args'', JArr (map JStr (argument_texts sourceCode (arguments_of site)))),
                (''lineno'', JNum (fst (position_at sourceCode site))),
                (''col_offset'', JNum (snd (position_at sourceCode site))),
                (''is_async'', JBool (case parent of None \<Rightarrow> False
                                      | Some p \<Rightarrow> isAwaitExpression p))]) \<or>
         (isNewExpression site \<and>
          ev = [(''is_constructor'', JBool True),
                (''class'', JStr (getText sourceCode (hd (children site)))),
                (''args'', JArr (map JStr (argument_texts sourceCode (arguments_of site)))),
                (''lineno'', JNum (fst (position_at sourceCode site))),
                (''col_offset'', JNum (snd (position_at sourceCode site)))])"
  using assms
  by (cases "(sourceCode, parent, site)" rule: method_call_events.cases)
     (auto simp: events_at_def Let_def split_def position_at_def argument_texts_def
           split: option.splits)

lemma extract_calls_site:
  assumes "ev \<in> set (extract_calls sourceCode tree)"
  obtains parent site where "(parent, site) \<in> set (preorder None tree)"
    and "ev \<in> set (events_at sourceCode (parent, site))"
  using assms unfolding extract_calls_def visit_preorder by auto

lemma map_events_at_concat:
  assumes "\<And>parent n. map f (events_at sourceCode (parent, n)) =
      (if isMethodCall n \<or> isNewExpression n then [g (parent, n)] else [])"
  shows "map f (concat (map (events_at sourceCode) xs)) =
     map g (filter (\<lambda>(parent, n). isMethodCall n \<or> isNewExpression n) xs)"
proof (induction xs)
  case Nil
  then show ?case by simp
next
  case (Cons x xs)
  obtain parent n where x: "x = (parent, n)" by (cases x)
  from Cons assms[of parent n] show ?case by (simp add: x)
qed

lemma extract_calls_by_site:
  assumes "\<And>parent n. map f (events_at sourceCode (parent, n)) =
      (if isMethodCall n \<or> isNewExpression n then [g (parent, n)] else [])"
  shows "map f (extract_calls sourceCode tree) = map g (emitting_sites tree)"
  unfolding extract_calls_def visit_preorder emitting_sites_def
  using assms by (rule map_events_at_concat)

lemma assemble_from_calls:
  "\<exists>st'. assemble_from st (map Call_event es) = Inr st' \<and>
     next_id st' = next_id st + length es \<and>
     map event_of (messages st') = map event_of (messages st) @ es \<and>
     block_stack st' = block_stack st \<and>
     conditional_blocks st' = conditional_blocks st"
proof (induction es arbitrary: st)
  case Nil
  then show ?case by simp
next
  case (Cons e es)
  obtain st1 where st1: "assemble_step st (Call_event e) = Inr st1"
    "next_id st1 = Suc (next_id st)" "map event_of (messages st1) = map event_of (messages st) @ [e]"
    "block_stack st1 = block_stack st" "conditional_blocks st1 = conditional_blocks st"
    by simp
  from Cons.IH[of st1] obtain st' where "assemble_from st1 (map Call_event es) = Inr st'"
    "next_id st' = next_id st1 + length es"
    "map event_of (messages st') = map event_of (messages st1) @ es"
    "block_stack st' = block_stack st1" "conditional_blocks st' = conditional_blocks st1"
    by blast
  with st1 show ?case by simp
qed


text \<open>The extractor on the example units.\<close>

lemma extract_calls_chained:
  "extract_calls chained_source chained_tree =
     [[(''caller'', JStr ''new A()''), (''method'', JStr ''run''),
       (''args'', JArr [JStr ''f()'']), (''lineno'', JNum 1),
       (''col_offset'', JNum 0), (''is_async'', JBool False)],
      [(''is_constructor'', JBool True), (''class'', JStr ''A''),
       (''args'', JArr []), (''lineno'', JNum 1), (''col_offset'', JNum 0)]]"
  by (simp add: extract_calls_def chained_source_def chained_tree_def visit.simps
      getLineAndCharacterOfPosition_def computeLineStarts_def argument_texts_def getText_def
      substring_def trim_def isWhiteSpace_def)

lemma extract_calls_await:
  "extract_calls await_source await_tree =
     [[(''caller'', JStr '' a''), (''method'', JStr ''b''), (''args'', JArr []),
       (''lineno'', JNum 1), (''col_offset'', JNum 5), (''is_async'', JBool True)]]"
  by (simp add: extract_calls_def await_source_def await_tree_def visit.simps
      getLineAndCharacterOfPosition_def computeLineStarts_def argument_texts_def
      substring_def)

lemma extract_calls_comment:
  "extract_calls comment_source comment_tree =
     [[(''caller'', JStr ''a''), (''method'', JStr ''b''),
       (''args'', JArr [JStr ''x'', JStr ''/*c*/ y'']), (''lineno'', JNum 1),
       (''col_offset'', JNum 0), (''is_async'', JBool False)]]"
  by (simp add: extract_calls_def comment_source_def comment_tree_def comment_argument_def
      visit.simps getLineAndCharacterOfPosition_def computeLineStarts_def argument_texts_def
      substring_def trim_def isWhiteSpace_def)


section \<open>The call extractor: the claims\<close>

text \<open>
  C1, as amended. For every source unit with \<open>N\<close> method-call sites (calls whose
  callee is a property access) and construction sites and no conditional, loop or try
  region, the extractor emits exactly \<open>N\<close> events, one per such site, and the
  pipeline produces a message list of length \<open>N\<close> and no conditional block.
\<close>

theorem pipeline_one_message_per_method_call_site:
  assumes "no_regions tree"
  shows "length (extract_calls sourceCode tree) = method_call_sites tree \<and>
         (\<exists>st. pipeline sourceCode tree = Inr st \<and>
               length (messages st) = method_call_sites tree \<and>
               conditional_blocks st = [])"
proof -
  have events: "length (extract_calls sourceCode tree) = method_call_sites tree"
    by (simp add: extract_calls_def method_call_sites_def length_visit)
  obtain st where st: "pipeline sourceCode tree = Inr st"
    "map event_of (messages st) = extract_calls sourceCode tree"
    "conditional_blocks st = []"
    using assemble_from_calls[of initial_assembly "extract_calls sourceCode tree"]
    by (auto simp: pipeline_def assemble_def initial_assembly_def)
  from st(2) have "length (messages st) = length (extract_calls sourceCode tree)"
    by (metis length_map)
  with events st show ?thesis by simp
qed

theorem pipeline_one_message_per_method_call_site_witness:
  "no_regions chained_tree \<and> method_call_sites chained_tree = 2 \<and>
   length (extract_calls chained_source chained_tree) = 2 \<and>
   (\<exists>st. pipeline chained_source chained_tree = Inr st \<and>
         length (messages st) = 2 \<and> conditional_blocks st = [])"
proof -
  have h: "no_regions chained_tree"
    by (simp add: no_regions_def chained_tree_def preorder.simps)
  have n: "method_call_sites chained_tree = 2"
    by (simp add: method_call_sites_def chained_tree_def preorder.simps)
  from pipeline_one_message_per_method_call_site[OF h, of chained_source] n h
  show ?thesis by simp
qed

text \<open>
  With every call site counted, the claim fails on the unit \<open>foo()\<close>: it has one call
  site and no region, and the extractor emits nothing for it, the callee being no
  property access.
\<close>

theorem plain_call_site_counterexample:
  "call_sites plain_call_tree = 1 \<and> no_regions plain_call_tree \<and>
   extract_calls plain_call_source plain_call_tree = [] \<and>
   pipeline plain_call_source plain_call_tree =
     Inr \<lparr>next_id = 0, messages = [], block_stack = [], conditional_blocks = []\<rparr>"
  by (simp add: call_sites_def no_regions_def plain_call_tree_def preorder.simps
      extract_calls_def visit.simps pipeline_def assemble_def initial_assembly_def)

text \<open>
  C4. For every syntax tree, the extractor's output is the depth-first pre-order
  traversal of the tree, each node contributing what \<open>visit\<close> pushes for it, with no
  later reordering: events of equal position stay in extraction order. On a tree whose
  text ranges nest as a parse's do, that order is the order of source positions.
\<close>

theorem extract_calls_preorder_and_position_order:
  "extract_calls sourceCode tree =
     concat (map (events_at sourceCode) (preorder None tree)) \<and>
   (well_nested tree \<longrightarrow> sorted_wrt position_le (extract_calls sourceCode tree))"
proof -
  have "sorted_wrt position_le (concat (map (events_at sourceCode) (preorder None tree)))"
    if "well_nested tree"
    using that by (intro sorted_events sorted_preorder)
  then show ?thesis by (simp add: extract_calls_def visit_preorder)
qed

theorem extract_calls_preorder_and_position_order_witness:
  "well_nested chained_tree \<and>
   sorted_wrt position_le (extract_calls chained_source chained_tree) \<and>
   concat (map (events_at chained_source) (preorder None chained_tree)) =
     [[(''caller'', JStr ''new A()''), (''method'', JStr ''run''),
       (''args'', JArr [JStr ''f()'']), (''lineno'', JNum 1),
       (''col_offset'', JNum 0), (''is_async'', JBool False)],
      [(''is_constructor'', JBool True), (''class'', JStr ''A''),
       (''args'', JArr []), (''lineno'', JNum 1), (''col_offset'', JNum 0)]]"
proof -
  have h: "well_nested chained_tree"
    by (simp add: chained_tree_def well_nested.simps)
  note inst = extract_calls_preorder_and_position_order[of chained_source chained_tree]
  from inst h have s: "sorted_wrt position_le (extract_calls chained_source chained_tree)"
    by (rule conjunct2[THEN mp])
  from inst have "extract_calls chained_source chained_tree =
      concat (map (events_at chained_source) (preorder None chained_tree))"
    by (rule conjunct1)
  then have e: "concat (map (events_at chained_source) (preorder None chained_tree)) =
      extract_calls chained_source chained_tree"
    by (rule sym)
  from h s e extract_calls_chained show ?thesis by (simp only: simp_thms)
qed




text \<open>
  C6, as amended. The events are those of the method calls and constructions of the
  unit, one for each in pre-order, and each event is at the position of its own call.
  Its \<open>args\<close> are, for the arguments of that call in their order, the source over the
  argument node's whole text range, from \<open>pos\<close> to \<open>end\<close>, with the white space at both
  ends removed. Source texts are strings of code units below 256.
\<close>

theorem extracted_arguments_are_trimmed_ranges:
  "map (\<lambda>ev. (event_position ev, map_of ev ''args'')) (extract_calls sourceCode tree) =
   map (\<lambda>(parent, site).
          (Some (position_at sourceCode site),
           Some (JArr (map (\<lambda>arg. JStr (trim (substring sourceCode
                              (pos (range_of arg)) (end_pos (range_of arg)))))
                        (arguments_of site)))))
     (emitting_sites tree)"
proof (rule extract_calls_by_site)
  fix parent n
  show "map (\<lambda>ev. (event_position ev, map_of ev ''args'')) (events_at sourceCode (parent, n)) =
      (if isMethodCall n \<or> isNewExpression n
       then [case (parent, n) of (parent, site) \<Rightarrow>
          (Some (position_at sourceCode site),
           Some (JArr (map (\<lambda>arg. JStr (trim (substring sourceCode
                              (pos (range_of arg)) (end_pos (range_of arg)))))
                        (arguments_of site))))]
       else [])"
    by (cases "(sourceCode, parent, n)" rule: method_call_events.cases)
       (simp_all add: events_at_def Let_def split_def argument_texts_def comp_def
          event_position_def position_at_def split: option.splits)
qed

theorem extracted_arguments_are_trimmed_ranges_witness:
  "map (\<lambda>ev. (event_position ev, map_of ev ''args''))
     (extract_calls comment_source comment_tree) =
     [(Some (1, 0), Some (JArr [JStr ''x'', JStr ''/*c*/ y'']))] \<and>
   map (\<lambda>ev. (event_position ev, map_of ev ''args''))
     (extract_calls two_calls_source two_calls_tree) =
     [(Some (1, 5), Some (JArr [JStr ''1''])), (Some (1, 13), Some (JArr [JStr ''2'']))] \<and>
   map (\<lambda>ev. (event_position ev, map_of ev ''args'')) (extract_calls nbsp_source nbsp_tree) =
     [(Some (1, 0), Some (JArr [JStr ''x'']))]"
proof (intro conjI)
  show "map (\<lambda>ev. (event_position ev, map_of ev ''args''))
     (extract_calls comment_source comment_tree) =
     [(Some (1, 0), Some (JArr [JStr ''x'', JStr ''/*c*/ y'']))]"
    by (subst extracted_arguments_are_trimmed_ranges)
       (simp add: emitting_sites_def comment_tree_def comment_source_def comment_argument_def
          preorder.simps position_at_def getLineAndCharacterOfPosition_def
          computeLineStarts_def substring_def trim_def isWhiteSpace_def)
  show "map (\<lambda>ev. (event_position ev, map_of ev ''args''))
     (extract_calls two_calls_source two_calls_tree) =
     [(Some (1, 5), Some (JArr [JStr ''1''])), (Some (1, 13), Some (JArr [JStr ''2'']))]"
    by (subst extracted_arguments_are_trimmed_ranges)
       (simp add: emitting_sites_def two_calls_tree_def two_calls_source_def
          preorder.simps position_at_def getLineAndCharacterOfPosition_def
          computeLineStarts_def substring_def trim_def isWhiteSpace_def)
  show "map (\<lambda>ev. (event_position ev, map_of ev ''args'')) (extract_calls nbsp_source nbsp_tree) =
     [(Some (1, 0), Some (JArr [JStr ''x'']))]"
    by (subst extracted_arguments_are_trimmed_ranges)
       (simp add: emitting_sites_def nbsp_tree_def nbsp_source_def
          preorder.simps position_at_def getLineAndCharacterOfPosition_def
          computeLineStarts_def substring_def trim_def isWhiteSpace_def)
qed

text \<open>
  The claim as first stated fails on \<open>a.b(x, /*c*/ y)\<close>: the text captured for the
  second argument is neither the source over its text range, which begins with a
  blank, nor the source of the argument itself, which is \<open>y\<close>.
\<close>

theorem argument_text_counterexample:
  "extract_calls comment_source comment_tree =
     [[(''caller'', JStr ''a''), (''method'', JStr ''b''),
       (''args'', JArr [JStr ''x'', JStr ''/*c*/ y'']), (''lineno'', JNum 1),
       (''col_offset'', JNum 0), (''is_async'', JBool False)]] \<and>
   arguments_of (hd (children (hd (children comment_tree)))) =
     [Identifier \<lparr>pos = 4, getStart = 4, end_pos = 5\<rparr> ''x'', comment_argument] \<and>
   substring comment_source (pos (range_of comment_argument))
     (end_pos (range_of comment_argument)) = '' /*c*/ y'' \<and>
   getText comment_source comment_argument = ''y''"
  by (simp add: extract_calls_comment)
     (simp add: comment_source_def comment_tree_def comment_argument_def substring_def
      getText_def)


section \<open>Facts about the assembler\<close>

lemma assemble_from_append:
  "assemble_from st (xs @ ys) =
     (case assemble_from st xs of Inl fault \<Rightarrow> Inl fault | Inr st' \<Rightarrow> assemble_from st' ys)"
  by (induction xs arbitrary: st) (auto split: sum.splits)

lemma assemble_forest_aux:
  assumes "\<And>t st. t \<in> set ts \<Longrightarrow>
      \<exists>st'. assemble_from st (flatten t) = Inr st' \<and>
            carries_on st (sites t) (expected_blocks (length (block_stack st)) (next_id st) t) st'"
  shows "\<exists>st'. assemble_from st (concat (map flatten ts)) = Inr st' \<and>
            carries_on st (sum_list (map sites ts))
              (expected_blocks_list (length (block_stack st)) (next_id st) ts) st'"
  using assms
proof (induction ts arbitrary: st)
  case Nil
  then show ?case by (simp add: carries_on_def)
next
  case (Cons t ts)
  from Cons.prems[of t st] obtain st1 where st1: "assemble_from st (flatten t) = Inr st1"
    "carries_on st (sites t) (expected_blocks (length (block_stack st)) (next_id st) t) st1"
    by auto
  have "\<exists>st'. assemble_from st1 (concat (map flatten ts)) = Inr st' \<and>
            carries_on st1 (sum_list (map sites ts))
              (expected_blocks_list (length (block_stack st1)) (next_id st1) ts) st'"
    by (rule Cons.IH) (use Cons.prems in auto)
  then obtain st2 where st2: "assemble_from st1 (concat (map flatten ts)) = Inr st2"
    "carries_on st1 (sum_list (map sites ts))
       (expected_blocks_list (length (block_stack st1)) (next_id st1) ts) st2"
    by auto
  from st1 st2 show ?case
    by (auto simp: assemble_from_append carries_on_def)
qed

lemma assemble_tree:
  "\<exists>st'. assemble_from st (flatten t) = Inr st' \<and>
         carries_on st (sites t) (expected_blocks (length (block_stack st)) (next_id st) t) st'"
proof (induction t arbitrary: st)
  case (Site e)
  show ?case by (simp add: carries_on_def)
next
  case (Region ty c l h ts)
  define st1 where "st1 = st\<lparr>block_stack :=
               \<lparr>entry_type = ty, entry_condition = c, entry_start_message_id = next_id st,
                entry_nesting_level = length (block_stack st),
                entry_is_loop = l, entry_has_else = h\<rparr> # block_stack st\<rparr>"
  have "\<exists>st'. assemble_from st1 (concat (map flatten ts)) = Inr st' \<and>
            carries_on st1 (sum_list (map sites ts))
              (expected_blocks_list (length (block_stack st1)) (next_id st1) ts) st'"
    by (rule assemble_forest_aux) (use Region.IH in auto)
  then obtain st2 where st2: "assemble_from st1 (concat (map flatten ts)) = Inr st2"
    "carries_on st1 (sum_list (map sites ts))
       (expected_blocks_list (Suc (length (block_stack st))) (next_id st) ts) st2"
    by (auto simp: st1_def)
  have enter: "assemble_from st (flatten (Region ty c l h ts)) =
      assemble_from st2 [Region_exit]"
    using st2(1) by (simp add: assemble_from_append st1_def)
  from st2(2) show ?case
    unfolding enter
    by (auto simp: carries_on_def st1_def)
qed

lemma assemble_forest:
  "\<exists>st'. assemble_from st (concat (map flatten ts)) = Inr st' \<and>
         carries_on st (sum_list (map sites ts))
           (expected_blocks_list (length (block_stack st)) (next_id st) ts) st'"
  by (rule assemble_forest_aux) (rule assemble_tree)

lemma pass_invariant_initial: "pass_invariant initial_assembly"
  by (simp add: pass_invariant_def initial_assembly_def)

lemma pass_invariant_step:
  assumes "pass_invariant st"
  shows "case assemble_step st item of Inl fault \<Rightarrow> pass_invariant fault
         | Inr st' \<Rightarrow> pass_invariant st'"
proof (cases item)
  case (Call_event e)
  with assms show ?thesis by (auto simp: pass_invariant_def less_Suc_eq)
next
  case (Region_enter t c l h)
  with assms show ?thesis by (auto simp: pass_invariant_def)
next
  case Region_exit
  show ?thesis
  proof (cases "block_stack st")
    case Nil
    with Region_exit assms show ?thesis by simp
  next
    case (Cons entry rest)
    with assms have "entry_start_message_id entry \<le> next_id st"
      and "map entry_nesting_level rest = rev [0..<length rest]"
      by (auto simp: pass_invariant_def)
    with Region_exit Cons assms show ?thesis by (auto simp: pass_invariant_def)
  qed
qed

lemma pass_invariant_run:
  assumes "pass_invariant st"
  shows "case assemble_from st items of Inl fault \<Rightarrow> pass_invariant fault
         | Inr st' \<Rightarrow> pass_invariant st'"
  using assms
proof (induction items arbitrary: st)
  case Nil
  then show ?case by simp
next
  case (Cons item items)
  show ?case
  proof (cases "assemble_step st item")
    case (Inl fault)
    with pass_invariant_step[OF Cons.prems, of item] show ?thesis by simp
  next
    case (Inr st')
    with pass_invariant_step[OF Cons.prems, of item] have "pass_invariant st'" by simp
    from Cons.IH[OF this] Inr show ?thesis by simp
  qed
qed


section \<open>The assembler: the claim\<close>

text \<open>
  C2. Whatever the event stream, and also when the pass stops at a region exit with no
  open block, every emitted block runs from a message to the same or a later message,
  both of them emitted, so that it encloses at least one message, and every open entry
  records as its nesting level the number of entries open beneath it. On the event
  stream of a forest of call sites and nested regions, the pass ends without fault and
  emits exactly the expected blocks: one for each region that encloses a message, with
  the number of regions around it as its nesting level, and none for a region without
  messages.
\<close>

theorem assembled_blocks_are_well_formed:
  "(\<forall>st. assemble items = Inr st \<or> assemble items = Inl st \<longrightarrow>
       map id_message (messages st) = [0..<length (messages st)] \<and>
       (\<forall>b \<in> set (conditional_blocks st).
          start_message_id b \<le> end_message_id b \<and> end_message_id b < length (messages st)) \<and>
       map entry_nesting_level (block_stack st) = rev [0..<length (block_stack st)]) \<and>
   (\<exists>st. assemble (concat (map flatten units)) = Inr st \<and>
         conditional_blocks st = expected_blocks_list 0 0 units \<and>
         block_stack st = [] \<and>
         length (messages st) = sum_list (map sites units))"
proof (intro conjI allI impI)
  fix st :: "'a assembly"
  assume "assemble items = Inr st \<or> assemble items = Inl st"
  with pass_invariant_run[OF pass_invariant_initial, of items]
  have inv: "pass_invariant st" by (auto simp: assemble_def)
  then have len: "length (messages st) = next_id st"
    by (metis pass_invariant_def length_map length_upt minus_nat.diff_0)
  from inv show "map id_message (messages st) = [0..<length (messages st)]"
    and "\<forall>b \<in> set (conditional_blocks st).
          start_message_id b \<le> end_message_id b \<and> end_message_id b < length (messages st)"
    and "map entry_nesting_level (block_stack st) = rev [0..<length (block_stack st)]"
    unfolding len by (simp_all add: pass_invariant_def)
next
  from assemble_forest[of initial_assembly units]
  show "\<exists>st. assemble (concat (map flatten units)) = Inr st \<and>
         conditional_blocks st = expected_blocks_list 0 0 units \<and>
         block_stack st = [] \<and>
         length (messages st) = sum_list (map sites units)"
    by (auto simp: assemble_def carries_on_def initial_assembly_def)
qed

theorem assembled_blocks_are_well_formed_witness:
  "\<exists>st. assemble (concat (map flatten nested_units)) = Inr st \<and>
     conditional_blocks st =
       [\<lparr>start_message_id = 2, end_message_id = 2, condition = ''retries'',
          type_of_block = Loop_type, nesting_level = 1, has_else = False, is_loop = True\<rparr>,
        \<lparr>start_message_id = 1, end_message_id = 2, condition = ''user'',
          type_of_block = If_type, nesting_level = 0, has_else = False, is_loop = False\<rparr>] \<and>
     map id_message (messages st) = [0..<3]"
proof -
  note inst = assembled_blocks_are_well_formed
    [of "concat (map flatten nested_units)" nested_units]
  from inst obtain st where st: "assemble (concat (map flatten nested_units)) = Inr st"
    "conditional_blocks st = expected_blocks_list 0 0 nested_units"
    "length (messages st) = sum_list (map sites nested_units)"
    by blast
  from inst st(1) have ids: "map id_message (messages st) = [0..<length (messages st)]"
    by blast
  have blocks: "expected_blocks_list 0 0 nested_units =
       [\<lparr>start_message_id = 2, end_message_id = 2, condition = ''retries'',
          type_of_block = Loop_type, nesting_level = 1, has_else = False, is_loop = True\<rparr>,
        \<lparr>start_message_id = 1, end_message_id = 2, condition = ''user'',
          type_of_block = If_type, nesting_level = 0, has_else = False, is_loop = False\<rparr>]"
    by (simp add: nested_units_def)
  have count: "sum_list (map sites nested_units) = 3"
    by (simp add: nested_units_def)
  from st ids show ?thesis
    unfolding blocks count by (intro exI[of _ st]) simp
qed


section \<open>Facts about the renderers\<close>

lemma step_skipped:
  "\<not> drawn lifelines m \<Longrightarrow> render_async_message lifelines st m = st"
  by (auto simp: render_async_message_def drawn_def Let_def)

lemma run_filter:
  "foldl (render_async_message lifelines) st ms =
     foldl (render_async_message lifelines) st (filter (drawn lifelines) ms)"
  by (induction ms arbitrary: st) (simp_all add: step_skipped)

lemma step_quiet:
  assumes "drawn lifelines m" "quiet m"
  shows "regions (render_async_message lifelines st m) = regions st"
    and "currentRegion (render_async_message lifelines st m) = currentRegion st"
    and "regionStartY (render_async_message lifelines st m) = regionStartY st"
    and "currentY (render_async_message lifelines st m) = currentY st + messageHeight"
  using assms
  by (auto simp: render_async_message_def drawn_def quiet_def Let_def truthy_name_def
      split: option.splits)

lemma run_quiet:
  assumes "\<forall>m \<in> set ms. drawn lifelines m \<and> quiet m"
  shows "regions (foldl (render_async_message lifelines) st ms) = regions st \<and>
         currentRegion (foldl (render_async_message lifelines) st ms) = currentRegion st \<and>
         regionStartY (foldl (render_async_message lifelines) st ms) = regionStartY st \<and>
         currentY (foldl (render_async_message lifelines) st ms) =
           currentY st + messageHeight * int (length ms)"
  using assms
proof (induction ms arbitrary: st)
  case Nil
  then show ?case by simp
next
  case (Cons m ms)
  then have m: "drawn lifelines m" "quiet m" by auto
  from Cons.prems have "\<forall>m \<in> set ms. drawn lifelines m \<and> quiet m" by simp
  from Cons.IH[OF this, of "render_async_message lifelines st m"] step_quiet[OF m, of st]
  show ?case by (simp add: algebra_simps)
qed

lemma currentY_step:
  "drawn lifelines m \<Longrightarrow>
     currentY (render_async_message lifelines st m) = currentY st + messageHeight"
  by (auto simp: render_async_message_def drawn_def Let_def split: option.splits)

lemma currentY_run:
  "\<forall>m \<in> set ms. drawn lifelines m \<Longrightarrow>
     currentY (foldl (render_async_message lifelines) st ms) =
       currentY st + messageHeight * int (length ms)"
proof (induction ms arbitrary: st)
  case Nil
  then show ?case by simp
next
  case (Cons m ms)
  then show ?case by (simp add: currentY_step algebra_simps)
qed

lemma regions_step_grow:
  "r \<in> set (regions st) \<Longrightarrow> r \<in> set (regions (render_async_message lifelines st m))"
  by (auto simp: render_async_message_def Let_def split: option.splits)

lemma regions_run_grow:
  "r \<in> set (regions st) \<Longrightarrow> r \<in> set (regions (foldl (render_async_message lifelines) st ms))"
  by (induction ms arbitrary: st) (simp_all add: regions_step_grow)

lemma regions_close_grow:
  "r \<in> set (regions st) \<Longrightarrow> r \<in> set (regions (close_track st))"
  by (simp add: close_track_def)

lemma step_spawn:
  assumes "drawn lifelines m" "creates_track m = Some c" "c \<noteq> []"
    "\<not> truthy_name (returns_to_track m)"
  shows "currentRegion (render_async_message lifelines st m) = c"
    and "regionStartY (render_async_message lifelines st m) = currentY st"
  using assms
  by (auto simp: render_async_message_def drawn_def Let_def)

lemma step_join:
  assumes "drawn lifelines m" "\<not> truthy_name (creates_track m)"
    "truthy_name (returns_to_track m)" "currentRegion st \<noteq> []"
  shows "\<lparr>startY = regionStartY st, endY = currentY st + messageHeight,
           region_name = currentRegion st\<rparr>
         \<in> set (regions (render_async_message lifelines st m))"
  using assms
  by (auto simp: render_async_message_def drawn_def Let_def truthy_name_def
      split: option.splits)


lemma starts_below_step:
  "starts_below st \<Longrightarrow> starts_below (render_async_message lifelines st m)"
  by (auto simp: starts_below_def render_async_message_def Let_def messageHeight_def
      split: option.splits)

lemma starts_below_run:
  "starts_below st \<Longrightarrow> starts_below (foldl (render_async_message lifelines) st ms)"
  by (induction ms arbitrary: st) (simp_all add: starts_below_step)

lemma starts_below_start: "starts_below (start_track y)"
  by (simp add: starts_below_def start_track_def)

lemma starts_from_step:
  assumes "starts_from lo st"
  shows "starts_from lo (render_async_message lifelines st m)"
    and "\<forall>r \<in> set (regions (render_async_message lifelines st m)).
           r \<in> set (regions st) \<or> lo \<le> startY r"
  using assms
  by (auto simp: starts_from_def render_async_message_def Let_def messageHeight_def
      split: option.splits)

lemma starts_from_run:
  assumes "starts_from lo st"
  shows "starts_from lo (foldl (render_async_message lifelines) st ms) \<and>
         (\<forall>r \<in> set (regions (foldl (render_async_message lifelines) st ms)).
            r \<in> set (regions st) \<or> lo \<le> startY r)"
  using assms
proof (induction ms arbitrary: st)
  case Nil
  then show ?case by simp
next
  case (Cons m ms)
  from starts_from_step[OF Cons.prems, of lifelines m]
  have a: "starts_from lo (render_async_message lifelines st m)"
    and b: "\<forall>r \<in> set (regions (render_async_message lifelines st m)).
           r \<in> set (regions st) \<or> lo \<le> startY r"
    by auto
  from Cons.IH[OF a] b show ?case by auto
qed

lemma starts_from_close:
  assumes "starts_from lo st"
  shows "\<forall>r \<in> set (regions (close_track st)). r \<in> set (regions st) \<or> lo \<le> startY r"
  using assms by (auto simp: starts_from_def close_track_def)

lemma step_respawn:
  assumes "drawn lifelines m" "truthy_name (creates_track m)"
  shows "starts_from (currentY st) (render_async_message lifelines st m)"
    and "\<forall>r \<in> set (regions (render_async_message lifelines st m)).
           r \<in> set (regions st) \<or> startY r = currentY st"
  using assms
  by (auto simp: starts_from_def render_async_message_def drawn_def Let_def messageHeight_def
      truthy_name_def split: option.splits)

lemma step_spawn_join:
  assumes "drawn lifelines m" "creates_track m = Some c" "c \<noteq> []"
    "truthy_name (returns_to_track m)"
  shows "\<lparr>startY = currentY st, endY = currentY st + messageHeight, region_name = c\<rparr>
         \<in> set (regions (render_async_message lifelines st m))"
  using assms
  by (auto simp: render_async_message_def drawn_def Let_def)

lemma step_no_join:
  assumes "\<not> truthy_name (returns_to_track m)"
  shows "regions (render_async_message lifelines st m) = regions st"
  using assms
  by (auto simp: render_async_message_def Let_def split: option.splits)

text \<open>
  A spawn, a plain message and a message that carries both flags: the track has one
  region only, the one of the last message.
\<close>

lemma respawn_regions:
  "regions (render_track (lifelines_of [''caller'', ''worker'']) 100
       [spawn_message ''task_1'', plain_message, spawn_join_message ''task_9'']) =
     [\<lparr>startY = 200, endY = 250, region_name = ''task_9''\<rparr>]"
  by (simp add: spawn_message_def plain_message_def spawn_join_message_def lifelines_of_def
      set_property_def render_track_def render_async_message_def start_track_def
      close_track_def get_property_def truthy_name_def actorSpacing_def actorY_def
      messageHeight_def Let_def)


text \<open>
  The guards do skip a name that is neither a participant nor a member that plain
  objects inherit.
\<close>

lemma dom_lifelines_fold:
  "dom (map_of (foldl (\<lambda>lifelines (index, participant).
              set_property lifelines participant (int index * actorSpacing + 100))
       init (enumerate n ps))) = dom (map_of init) \<union> set ps"
proof (induction ps arbitrary: init n)
  case Nil
  then show ?case by simp
next
  case (Cons p ps)
  have "dom (map_of (set_property init p (int n * actorSpacing + 100))) =
        insert p (dom (map_of init))"
    by (simp add: set_property_def update_conv')
  with Cons[of "set_property init p (int n * actorSpacing + 100)" "Suc n"]
  show ?case by simp
qed

lemma lifelines_own: "map_of (lifelines_of ps) key \<noteq> None \<longleftrightarrow> key \<in> set ps"
  using dom_lifelines_fold[of "[]" 0 ps] by (auto simp: lifelines_of_def dom_def)

lemma lifeline_truthy:
  "truthy (get_property (lifelines_of ps) key) \<longleftrightarrow>
     key \<in> set ps \<or> key \<in> set object_prototype_properties"
  using lifelines_own[of ps key]
  by (auto simp: get_property_def split: option.splits)

lemma unknown_names_are_skipped:
  assumes "cm_from m \<notin> set ps \<and> cm_from m \<notin> set object_prototype_properties \<or>
           cm_to m \<notin> set ps \<and> cm_to m \<notin> set object_prototype_properties"
  shows "render_cond_message (lifelines_of ps) st m = st"
  using assms by (auto simp: render_cond_message_def lifeline_truthy Let_def)

lemma unknown_names_are_skipped_async:
  assumes "from_name m \<notin> set ps \<and> from_name m \<notin> set object_prototype_properties \<or>
           to_name m \<notin> set ps \<and> to_name m \<notin> set object_prototype_properties"
  shows "render_async_message (lifelines_of ps) st m = st"
  using assms by (auto simp: render_async_message_def lifeline_truthy Let_def)


section \<open>The renderers: the claims\<close>

text \<open>
  C3, as amended. In \<open>AsyncSequenceDiagram\<close>, take a drawn message of a track that is
  flagged \<open>creates_track\<close>, a spawn. If the spawn is itself flagged \<open>returns_to_track\<close>,
  the track has the region named by the spawn that starts at the spawn and ends at the
  bottom of the spawn. Otherwise the first later drawn message of the track that carries
  either flag decides. If it is flagged \<open>returns_to_track\<close> and not \<open>creates_track\<close>,
  whichever track it names, the track has the region named by the spawn that starts at
  the spawn and ends at the bottom of that message. If it is flagged \<open>creates_track\<close>,
  with or without \<open>returns_to_track\<close>, the spawn is given no region: no region of the
  track starts at the spawn. If there is no such message, the region of the spawn is the
  track's last one and ends at the bottom of the track's last drawn message: it does not
  stay open.
\<close>

theorem spawned_region_is_bracketed:
  assumes split: "filter (drawn lifelines) trackMessages = before_spawn @ spawn # later"
    and spawn: "creates_track spawn = Some track" "track \<noteq> []"
  shows "(truthy_name (returns_to_track spawn) \<longrightarrow>
            \<lparr>startY = y + messageHeight * int (length before_spawn),
             endY = y + messageHeight * int (length before_spawn) + messageHeight,
             region_name = track\<rparr>
            \<in> set (regions (render_track lifelines y trackMessages))) \<and>
         (\<not> truthy_name (returns_to_track spawn) \<longrightarrow>
            ((\<forall>m \<in> set later. quiet m) \<longrightarrow>
               regions (render_track lifelines y trackMessages) \<noteq> [] \<and>
               last (regions (render_track lifelines y trackMessages)) =
                 \<lparr>startY = y + messageHeight * int (length before_spawn),
                  endY = y + messageHeight *
                           int (length (filter (drawn lifelines) trackMessages)),
                  region_name = track\<rparr>) \<and>
            (\<forall>between next after.
               later = between @ next # after \<and> (\<forall>m \<in> set between. quiet m) \<and>
               \<not> quiet next \<longrightarrow>
               (if truthy_name (creates_track next)
                then \<forall>r \<in> set (regions (render_track lifelines y trackMessages)).
                       startY r \<noteq> y + messageHeight * int (length before_spawn)
                else \<lparr>startY = y + messageHeight * int (length before_spawn),
                      endY = y + messageHeight *
                               int (length before_spawn + 1 + length between)
                             + messageHeight,
                      region_name = track\<rparr>
                     \<in> set (regions (render_track lifelines y trackMessages)))))"
proof -
  let ?step = "render_async_message lifelines"
  let ?drawn = "filter (drawn lifelines) trackMessages"
  let ?R = "regions (render_track lifelines y trackMessages)"
  let ?Y = "y + messageHeight * int (length before_spawn)"
  have all_drawn: "\<forall>m \<in> set ?drawn. drawn lifelines m" by simp
  then have parts: "\<forall>m \<in> set before_spawn. drawn lifelines m" "drawn lifelines spawn"
    "\<forall>m \<in> set later. drawn lifelines m"
    unfolding split by auto
  define st0 where "st0 = foldl ?step (start_track y) before_spawn"
  define st1 where "st1 = ?step st0 spawn"
  have y0: "currentY st0 = ?Y"
    unfolding st0_def using currentY_run[OF parts(1)] by (simp add: start_track_def)
  have below0: "starts_below st0"
    unfolding st0_def by (intro starts_below_run starts_below_start)
  have run: "foldl ?step (start_track y) trackMessages = foldl ?step st1 later"
    by (subst run_filter) (simp add: split st0_def st1_def)
  have both: "\<lparr>startY = ?Y, endY = ?Y + messageHeight, region_name = track\<rparr> \<in> set ?R"
    if "truthy_name (returns_to_track spawn)"
  proof -
    from step_spawn_join[OF parts(2) spawn that, of st0]
    have "\<lparr>startY = ?Y, endY = ?Y + messageHeight, region_name = track\<rparr> \<in> set (regions st1)"
      by (simp add: st1_def y0)
    then show ?thesis
      unfolding render_track_def run by (intro regions_close_grow regions_run_grow)
  qed
  have open_end: "?R \<noteq> [] \<and> last ?R =
      \<lparr>startY = ?Y, endY = y + messageHeight * int (length ?drawn), region_name = track\<rparr>"
    if no_join: "\<not> truthy_name (returns_to_track spawn)" and q: "\<forall>m \<in> set later. quiet m"
  proof -
    have st1: "currentRegion st1 = track" "regionStartY st1 = ?Y"
      "currentY st1 = ?Y + messageHeight"
      unfolding st1_def
      using step_spawn[OF parts(2) spawn no_join, of st0] currentY_step[OF parts(2), of st0] y0
      by auto
    from run_quiet[of later lifelines st1] parts(3) q
    have fin: "currentRegion (foldl ?step st1 later) = track"
      "regionStartY (foldl ?step st1 later) = ?Y"
      "currentY (foldl ?step st1 later) = ?Y + messageHeight + messageHeight * int (length later)"
      using st1 by auto
    have len: "length ?drawn = length before_spawn + 1 + length later"
      unfolding split by simp
    show ?thesis
      unfolding render_track_def run len using fin spawn(2)
      by (simp add: close_track_def algebra_simps)
  qed
  have next_message:
    "if truthy_name (creates_track next)
     then \<forall>r \<in> set ?R. startY r \<noteq> ?Y
     else \<lparr>startY = ?Y,
           endY = y + messageHeight * int (length before_spawn + 1 + length between)
                  + messageHeight,
           region_name = track\<rparr> \<in> set ?R"
    if no_join: "\<not> truthy_name (returns_to_track spawn)"
      and later: "later = between @ next # after" and q: "\<forall>m \<in> set between. quiet m"
      and loud: "\<not> quiet next"
    for between "next" after
  proof -
    have st1: "currentRegion st1 = track" "regionStartY st1 = ?Y"
      "currentY st1 = ?Y + messageHeight" "regions st1 = regions st0"
      unfolding st1_def
      using step_spawn[OF parts(2) spawn no_join, of st0] currentY_step[OF parts(2), of st0] y0
        step_no_join[OF no_join, of lifelines st0]
      by auto
    define st2 where "st2 = foldl ?step st1 between"
    from parts(3) later have dr: "\<forall>m \<in> set between. drawn lifelines m" "drawn lifelines next"
      by auto
    from run_quiet[of between lifelines st1] dr(1) q
    have st2: "currentRegion st2 = track" "regionStartY st2 = ?Y"
      "currentY st2 = ?Y + messageHeight + messageHeight * int (length between)"
      "regions st2 = regions st0"
      unfolding st2_def using st1 by auto
    define st3 where "st3 = ?step st2 next"
    have fin: "render_track lifelines y trackMessages = close_track (foldl ?step st3 after)"
      by (simp add: render_track_def run later st2_def st3_def)
    show ?thesis
    proof (cases "truthy_name (creates_track next)")
      case True
      from step_respawn[OF dr(2) True, of st2]
      have from3: "starts_from (currentY st2) st3"
        and reg3: "\<forall>r \<in> set (regions st3). r \<in> set (regions st2) \<or> startY r = currentY st2"
        unfolding st3_def by auto
      from starts_from_run[OF from3, of lifelines after]
      have from4: "starts_from (currentY st2) (foldl ?step st3 after)"
        and reg4: "\<forall>r \<in> set (regions (foldl ?step st3 after)).
                     r \<in> set (regions st3) \<or> currentY st2 \<le> startY r"
        by auto
      from starts_from_close[OF from4]
      have reg5: "\<forall>r \<in> set ?R. r \<in> set (regions (foldl ?step st3 after)) \<or>
                     currentY st2 \<le> startY r"
        unfolding fin .
      have later_y: "?Y < currentY st2"
        using st2(3) by (simp add: messageHeight_def)
      have "startY r \<noteq> ?Y" if "r \<in> set ?R" for r
      proof -
        from that reg5 reg4 reg3 consider "r \<in> set (regions st2)" | "currentY st2 \<le> startY r"
          by force
        then show ?thesis
        proof cases
          case 1
          with st2(4) below0 y0 show ?thesis by (auto simp: starts_below_def)
        next
          case 2
          with later_y show ?thesis by simp
        qed
      qed
      with True show ?thesis by simp
    next
      case False
      with loud have ret: "truthy_name (returns_to_track next)" by (simp add: quiet_def)
      from step_join[OF dr(2) False ret, of st2] st2 spawn(2)
      have "\<lparr>startY = ?Y, endY = currentY st2 + messageHeight, region_name = track\<rparr>
            \<in> set (regions st3)"
        by (simp add: st3_def)
      then have "\<lparr>startY = ?Y, endY = currentY st2 + messageHeight, region_name = track\<rparr>
            \<in> set ?R"
        unfolding fin by (intro regions_close_grow regions_run_grow)
      with False show ?thesis by (simp add: st2(3) algebra_simps)
    qed
  qed
  from both open_end next_message show ?thesis by blast
qed

theorem spawned_region_is_bracketed_witness:
  "\<lparr>startY = 100, endY = 250, region_name = ''task_1''\<rparr>
     \<in> set (regions (render_track (lifelines_of [''caller'', ''worker'']) 100
                [spawn_message ''task_1'', plain_message, join_message])) \<and>
   last (regions (render_track (lifelines_of [''caller'', ''worker'']) 100
                [spawn_message ''task_1'', plain_message])) =
     \<lparr>startY = 100, endY = 200, region_name = ''task_1''\<rparr> \<and>
   \<lparr>startY = 100, endY = 150, region_name = ''task_1''\<rparr>
     \<in> set (regions (render_track (lifelines_of [''caller'', ''worker'']) 100
                [spawn_join_message ''task_1'', plain_message])) \<and>
   100 \<notin> startY ` set (regions (render_track (lifelines_of [''caller'', ''worker'']) 100
                [spawn_message ''task_1'', plain_message, spawn_join_message ''task_9'']))"
proof -
  let ?lifelines = "lifelines_of [''caller'', ''worker'']"
  have drawn: "drawn ?lifelines (spawn_message ''task_1'')" "drawn ?lifelines plain_message"
    "drawn ?lifelines join_message" "drawn ?lifelines (spawn_join_message ''task_1'')"
    "drawn ?lifelines (spawn_join_message ''task_9'')"
    by (simp_all add: drawn_def lifelines_of_def set_property_def get_property_def
        spawn_message_def plain_message_def join_message_def spawn_join_message_def)
  have spawn: "creates_track (spawn_message ''task_1'') = Some ''task_1''" "''task_1'' \<noteq> []"
    by (simp_all add: spawn_message_def)
  have no_join: "\<not> truthy_name (returns_to_track (spawn_message ''task_1''))"
    by (simp add: spawn_message_def truthy_name_def)
  have both: "creates_track (spawn_join_message ''task_1'') = Some ''task_1''"
    "truthy_name (returns_to_track (spawn_join_message ''task_1''))"
    by (simp_all add: spawn_join_message_def truthy_name_def)
  have plain: "quiet plain_message"
    by (simp add: quiet_def plain_message_def truthy_name_def)
  have join: "\<not> quiet join_message" "\<not> truthy_name (creates_track join_message)"
    by (simp_all add: quiet_def join_message_def truthy_name_def)
  have respawn: "\<not> quiet (spawn_join_message ''task_9'')"
    "truthy_name (creates_track (spawn_join_message ''task_9''))"
    by (simp_all add: quiet_def spawn_join_message_def truthy_name_def)
  have joined: "filter (drawn ?lifelines) [spawn_message ''task_1'', plain_message, join_message] =
      [] @ spawn_message ''task_1'' # [plain_message, join_message]"
    using drawn by simp
  have open_end: "filter (drawn ?lifelines) [spawn_message ''task_1'', plain_message] =
      [] @ spawn_message ''task_1'' # [plain_message]"
    using drawn by simp
  have at_once: "filter (drawn ?lifelines) [spawn_join_message ''task_1'', plain_message] =
      [] @ spawn_join_message ''task_1'' # [plain_message]"
    using drawn by simp
  have dropped: "filter (drawn ?lifelines)
        [spawn_message ''task_1'', plain_message, spawn_join_message ''task_9''] =
      [] @ spawn_message ''task_1'' # [plain_message, spawn_join_message ''task_9'']"
    using drawn by simp
  from spawned_region_is_bracketed[OF joined spawn, of 100] no_join
  have "\<forall>between next after.
      [plain_message, join_message] = between @ next # after \<and>
      (\<forall>m \<in> set between. quiet m) \<and> \<not> quiet next \<longrightarrow>
      (if truthy_name (creates_track next)
       then \<forall>r \<in> set (regions (render_track ?lifelines 100
                  [spawn_message ''task_1'', plain_message, join_message])).
              startY r \<noteq> 100 + messageHeight * int (length ([] :: async_message list))
       else \<lparr>startY = 100 + messageHeight * int (length ([] :: async_message list)),
             endY = 100 + messageHeight *
                      int (length ([] :: async_message list) + 1 + length between)
                    + messageHeight,
             region_name = ''task_1''\<rparr>
            \<in> set (regions (render_track ?lifelines 100
                  [spawn_message ''task_1'', plain_message, join_message])))"
    by blast
  from this[rule_format, of "[plain_message]" join_message "[]"] plain join
  have first: "\<lparr>startY = 100, endY = 250, region_name = ''task_1''\<rparr>
     \<in> set (regions (render_track ?lifelines 100
                [spawn_message ''task_1'', plain_message, join_message]))"
    by (simp add: messageHeight_def)
  from spawned_region_is_bracketed[OF open_end spawn, of 100] no_join plain drawn
  have second: "last (regions (render_track ?lifelines 100
                [spawn_message ''task_1'', plain_message])) =
     \<lparr>startY = 100, endY = 200, region_name = ''task_1''\<rparr>"
    by (simp add: messageHeight_def)
  from spawned_region_is_bracketed[OF at_once both(1) spawn(2), of 100] both(2)
  have third: "\<lparr>startY = 100, endY = 150, region_name = ''task_1''\<rparr>
     \<in> set (regions (render_track ?lifelines 100
                [spawn_join_message ''task_1'', plain_message]))"
    by (simp add: messageHeight_def)
  from spawned_region_is_bracketed[OF dropped spawn, of 100] no_join
  have "\<forall>between next after.
      [plain_message, spawn_join_message ''task_9''] = between @ next # after \<and>
      (\<forall>m \<in> set between. quiet m) \<and> \<not> quiet next \<longrightarrow>
      (if truthy_name (creates_track next)
       then \<forall>r \<in> set (regions (render_track ?lifelines 100
                  [spawn_message ''task_1'', plain_message, spawn_join_message ''task_9''])).
              startY r \<noteq> 100 + messageHeight * int (length ([] :: async_message list))
       else \<lparr>startY = 100 + messageHeight * int (length ([] :: async_message list)),
             endY = 100 + messageHeight *
                      int (length ([] :: async_message list) + 1 + length between)
                    + messageHeight,
             region_name = ''task_1''\<rparr>
            \<in> set (regions (render_track ?lifelines 100
                  [spawn_message ''task_1'', plain_message, spawn_join_message ''task_9''])))"
    by blast
  from this[rule_format, of "[plain_message]" "spawn_join_message ''task_9''" "[]"] plain respawn
  have fourth: "100 \<notin> startY ` set (regions (render_track ?lifelines 100
                [spawn_message ''task_1'', plain_message, spawn_join_message ''task_9'']))"
    by (auto simp: messageHeight_def)
  from first second third fourth show ?thesis by (intro conjI)
qed

text \<open>
  The claim as first stated fails on a track \<open>main\<close> of two messages that each create
  a track and are never joined: only the second spawn is given a region; the first one's
  is overwritten before it is pushed.
\<close>

theorem second_spawn_drops_first_region_counterexample:
  "diagram_regions (AsyncSequenceDiagram two_spawns_data) =
     Inr [(''main'', [\<lparr>startY = 150, endY = 200, region_name = ''task_2''\<rparr>])]"
  by (simp add: diagram_regions_def AsyncSequenceDiagram_def two_spawns_data_def
      spawn_message_def lifelines_of_def set_property_def group_tracks_def message_at_def
      render_track_def render_async_message_def start_track_def close_track_def
      get_property_def truthy_name_def actorSpacing_def actorY_def messageHeight_def
      trackSpacing_def Let_def)

text \<open>
  C8 does not hold of the code. \<open>ConditionalSequenceDiagram\<close> is given one participant
  \<open>A\<close>, one message from \<open>constructor\<close> to \<open>A\<close>, and one block from message
  \<open>toString\<close> to message \<open>m1\<close>: the sender is no participant and the block's start
  matches no message, yet neither is skipped. \<open>lifelines[''constructor'']\<close> and
  \<open>messagePositions[''toString'']\<close> find the members that every plain object inherits, so
  both guards let them through, and the link and the block are drawn from coordinates
  that are \<open>undefined\<close>.
\<close>

theorem inherited_names_are_not_skipped:
  "ConditionalSequenceDiagram unknown_sender_data =
     \<lparr>drawn_links =
        [\<lparr>link_message = \<lparr>cm_from = ''constructor'', cm_to = ''A'', cm_method = ''run'',
                            cm_id = ''m1''\<rparr>,
          link_fromX = None, link_toX = Some 100, link_y = 100\<rparr>],
      drawn_blocks =
        [\<lparr>shape = ConditionalBlock, blockY = None, blockHeight = None,
          blockId = ''toString_to_m1''\<rparr>]\<rparr>"
  by (simp add: ConditionalSequenceDiagram_def unknown_sender_data_def lifelines_of_def
      set_property_def render_cond_message_def render_block_def get_property_def
      object_prototype_properties_def actorSpacing_def actorY_def messageHeight_def Let_def)


section \<open>The structure service: the claim\<close>

text \<open>
  C9, as amended. With \<open>fetch\<close> resolving to a response, \<open>getRepositoryStructure\<close> and
  \<open>getRepositoryDependencies\<close> return the parsed body when the response is ok and its
  body parses, reject with the parse error when it is ok and its body does not parse,
  and never return a value when it is not ok. For a response that is not ok and whose
  body parses to \<open>null\<close> they throw a \<open>TypeError\<close>. For every other response that is not
  ok they throw \<open>new Error(x)\<close>, where \<open>x\<close> is the \<open>detail\<close> field of the body when the
  body is an object that has one and it is truthy (for a string: not empty), and else the
  fallback text followed by \<open>statusText\<close>; the message of that error is \<open>x\<close> converted
  to a string, which is \<open>x\<close> itself when \<open>x\<close> is a string. A body that is no JSON text
  gives the fallback.
\<close>

theorem structure_service_results:
  assumes "fetch (''/api/structure/tree/'' @ repositoryId) (request_query excludeDirs) = Inr r1"
    and "fetch (''/api/structure/dependencies/'' @ repositoryId) (request_query excludeDirs) = Inr r2"
  shows "(ok r1 \<longrightarrow>
            getRepositoryStructure fetch repositoryId excludeDirs =
              (case json_body r1 of None \<Rightarrow> Inl SyntaxError | Some v \<Rightarrow> Inr v)) \<and>
         (\<not> ok r1 \<longrightarrow> (\<forall>v. getRepositoryStructure fetch repositoryId excludeDirs \<noteq> Inr v)) \<and>
         (\<not> ok r1 \<longrightarrow>
            getRepositoryStructure fetch repositoryId excludeDirs =
              (if json_body r1 = Some JNull then Inl TypeError
               else Inl (Error (case detail_field r1 of
                            Some d \<Rightarrow> if truthy_json d then d
                                      else JStr (''Failed to fetch repository structure: '' @ statusText r1)
                          | None \<Rightarrow> JStr (''Failed to fetch repository structure: '' @ statusText r1))))) \<and>
         (ok r2 \<longrightarrow>
            getRepositoryDependencies fetch repositoryId excludeDirs =
              (case json_body r2 of None \<Rightarrow> Inl SyntaxError | Some v \<Rightarrow> Inr v)) \<and>
         (\<not> ok r2 \<longrightarrow> (\<forall>v. getRepositoryDependencies fetch repositoryId excludeDirs \<noteq> Inr v)) \<and>
         (\<not> ok r2 \<longrightarrow>
            getRepositoryDependencies fetch repositoryId excludeDirs =
              (if json_body r2 = Some JNull then Inl TypeError
               else Inl (Error (case detail_field r2 of
                            Some d \<Rightarrow> if truthy_json d then d
                                      else JStr (''Failed to fetch repository dependencies: '' @ statusText r2)
                          | None \<Rightarrow> JStr (''Failed to fetch repository dependencies: '' @ statusText r2)))))"
proof -
  have detail: "detail_of (case json_body r of None \<Rightarrow> JObj [] | Some v \<Rightarrow> v) = Inr (detail_field r)"
    if "json_body r \<noteq> Some JNull" for r
  proof (cases "json_body r")
    case None
    then show ?thesis by (simp add: detail_field_def)
  next
    case (Some v)
    with that show ?thesis by (cases v) (simp_all add: detail_field_def)
  qed
  have tree_error: "getRepositoryStructure fetch repositoryId excludeDirs =
      (if json_body r1 = Some JNull then Inl TypeError
       else Inl (Error (case detail_field r1 of
                    Some d \<Rightarrow> if truthy_json d then d
                              else JStr (''Failed to fetch repository structure: '' @ statusText r1)
                  | None \<Rightarrow> JStr (''Failed to fetch repository structure: '' @ statusText r1))))"
    if "\<not> ok r1"
  proof (cases "json_body r1 = Some JNull")
    case True
    with that assms(1) show ?thesis by (simp add: getRepositoryStructure_def)
  next
    case False
    with that assms(1) detail[OF False] show ?thesis
      by (simp add: getRepositoryStructure_def split: option.splits)
  qed
  have graph_error: "getRepositoryDependencies fetch repositoryId excludeDirs =
      (if json_body r2 = Some JNull then Inl TypeError
       else Inl (Error (case detail_field r2 of
                    Some d \<Rightarrow> if truthy_json d then d
                              else JStr (''Failed to fetch repository dependencies: '' @ statusText r2)
                  | None \<Rightarrow> JStr (''Failed to fetch repository dependencies: '' @ statusText r2))))"
    if "\<not> ok r2"
  proof (cases "json_body r2 = Some JNull")
    case True
    with that assms(2) show ?thesis by (simp add: getRepositoryDependencies_def)
  next
    case False
    with that assms(2) detail[OF False] show ?thesis
      by (simp add: getRepositoryDependencies_def split: option.splits)
  qed
  have fine: "getRepositoryStructure fetch repositoryId excludeDirs =
        (case json_body r1 of None \<Rightarrow> Inl SyntaxError | Some v \<Rightarrow> Inr v)" if "ok r1"
    using that assms(1) by (simp add: getRepositoryStructure_def)
  have fine': "getRepositoryDependencies fetch repositoryId excludeDirs =
        (case json_body r2 of None \<Rightarrow> Inl SyntaxError | Some v \<Rightarrow> Inr v)" if "ok r2"
    using that assms(2) by (simp add: getRepositoryDependencies_def)
  have never: "getRepositoryStructure fetch repositoryId excludeDirs \<noteq> Inr v" if "\<not> ok r1" for v
    using tree_error[OF that] by (simp split: if_splits)
  have never': "getRepositoryDependencies fetch repositoryId excludeDirs \<noteq> Inr v" if "\<not> ok r2" for v
    using graph_error[OF that] by (simp split: if_splits)
  from fine fine' tree_error graph_error never never' show ?thesis by blast
qed

theorem structure_service_results_witness:
  "getRepositoryStructure
     (responds (not_found_response (Some (JObj [(''detail'', JStr ''Repository not found'')]))))
     ''repo123'' None = Inl (Error (JStr ''Repository not found'')) \<and>
   getRepositoryDependencies (responds (not_found_response None)) ''repo123'' None =
     Inl (Error (JStr ''Failed to fetch repository dependencies: Not Found'')) \<and>
   getRepositoryStructure
     (responds \<lparr>ok = True, statusText = ''OK'', json_body = Some (JObj [(''stats'', JObj [])])\<rparr>)
     ''repo123'' None = Inr (JObj [(''stats'', JObj [])]) \<and>
   getRepositoryDependencies (responds (not_found_response (Some JNull))) ''repo123'' None =
     Inl TypeError \<and>
   getRepositoryStructure
     (responds (not_found_response (Some (JObj [(''detail'', JNum 404)])))) ''repo123'' None =
     Inl (Error (JNum 404))"
proof -
  let ?detailed = "not_found_response (Some (JObj [(''detail'', JStr ''Repository not found'')]))"
  let ?unparsed = "not_found_response None"
  let ?fine = "\<lparr>ok = True, statusText = ''OK'', json_body = Some (JObj [(''stats'', JObj [])])\<rparr>"
  let ?null = "not_found_response (Some JNull)"
  let ?number = "not_found_response (Some (JObj [(''detail'', JNum 404)]))"
  have a: "getRepositoryStructure (responds ?detailed) ''repo123'' None =
      Inl (Error (JStr ''Repository not found''))"
    using structure_service_results[of "responds ?detailed" "''repo123''" None ?detailed ?detailed]
    by (simp add: responds_def not_found_response_def detail_field_def)
  have b: "getRepositoryDependencies (responds ?unparsed) ''repo123'' None =
      Inl (Error (JStr ''Failed to fetch repository dependencies: Not Found''))"
    using structure_service_results[of "responds ?unparsed" "''repo123''" None ?unparsed ?unparsed]
    by (simp add: responds_def not_found_response_def detail_field_def)
  have c: "getRepositoryStructure (responds ?fine) ''repo123'' None = Inr (JObj [(''stats'', JObj [])])"
    using structure_service_results[of "responds ?fine" "''repo123''" None ?fine ?fine]
    by (simp add: responds_def)
  have d: "getRepositoryDependencies (responds ?null) ''repo123'' None = Inl TypeError"
    using structure_service_results[of "responds ?null" "''repo123''" None ?null ?null]
    by (simp add: responds_def not_found_response_def)
  have e: "getRepositoryStructure (responds ?number) ''repo123'' None = Inl (Error (JNum 404))"
    using structure_service_results[of "responds ?number" "''repo123''" None ?number ?number]
    by (simp add: responds_def not_found_response_def detail_field_def)
  from a b c d e show ?thesis by simp
qed

text \<open>
  The claim as first stated fails on a response that is not ok and whose body is
  \<open>{"detail": ""}\<close>: the field is present, and the message is the fallback.
\<close>

theorem empty_detail_counterexample:
  "detail_field (not_found_response (Some (JObj [(''detail'', JStr [])]))) = Some (JStr []) \<and>
   getRepositoryStructure
     (responds (not_found_response (Some (JObj [(''detail'', JStr [])])))) ''repo123'' None =
     Inl (Error (JStr ''Failed to fetch repository structure: Not Found'')) \<and>
   getRepositoryDependencies
     (responds (not_found_response (Some (JObj [(''detail'', JStr [])])))) ''repo123'' None =
     Inl (Error (JStr ''Failed to fetch repository dependencies: Not Found''))"
  by (simp add: detail_field_def not_found_response_def responds_def
      getRepositoryStructure_def getRepositoryDependencies_def)


section \<open>Facts about cycle detection\<close>

lemma set_first_seen: "set (first_seen xs) = set xs"
  by (induction xs) auto

lemma distinct_first_seen: "distinct (first_seen xs)"
  by (induction xs) (auto simp: set_first_seen)

lemma set_discovered: "set (discovered es) = fst ` set es \<union> snd ` set es"
  by (auto simp: discovered_def set_first_seen) force+

lemma distinct_discovered: "distinct (discovered es)"
  by (simp add: discovered_def distinct_first_seen)

lemma reaches_discovered:
  assumes "reaches es a b"
  shows "a \<in> set (discovered es)" and "b \<in> set (discovered es)"
proof -
  from assms have "a \<in> Domain (set es)" "b \<in> Range (set es)"
    unfolding reaches_def by (metis Domain.DomainI trancl_domain, metis Range.intros trancl_range)
  then show "a \<in> set (discovered es)" and "b \<in> set (discovered es)"
    by (auto simp: set_discovered Domain_fst Range_snd)
qed

lemma same_component_refl: "same_component es v v"
  by (simp add: same_component_def)

lemma same_component_sym: "same_component es a b \<Longrightarrow> same_component es b a"
  by (auto simp: same_component_def)

lemma same_component_trans:
  "same_component es a b \<Longrightarrow> same_component es b c \<Longrightarrow> same_component es a c"
  unfolding same_component_def reaches_def by (metis trancl_trans)

lemma component_eq:
  assumes "same_component es a b"
  shows "component es a = component es b"
  unfolding component_def
  by (rule filter_cong[OF refl])
     (metis assms same_component_sym same_component_trans)

lemma component_members: "u \<in> set (component es v) \<Longrightarrow> same_component es v u"
  by (simp add: component_def)

lemma component_self: "v \<in> set (discovered es) \<Longrightarrow> v \<in> set (component es v)"
  by (simp add: component_def same_component_refl)

lemma distinct_component: "distinct (component es v)"
  by (simp add: component_def distinct_discovered)

lemma on_cycle_discovered: "on_cycle es v \<Longrightarrow> v \<in> set (discovered es)"
  unfolding on_cycle_def same_component_def
  by (auto dest: reaches_discovered simp: set_discovered) force

lemma on_cycle_component:
  assumes "on_cycle es v"
  shows "set (component es v) = {u. same_component es v u}"
proof -
  have "u \<in> set (discovered es)" if "same_component es v u" for u
    using that on_cycle_discovered[OF assms] reaches_discovered(2)[of es v u]
    by (auto simp: same_component_def)
  then show ?thesis by (auto simp: component_def)
qed

lemma on_cycle_transfer:
  assumes "on_cycle es v" "same_component es v w"
  shows "on_cycle es w"
proof (cases "w = v")
  case True
  with assms show ?thesis by simp
next
  case False
  with assms(2) have "same_component es w v" "v \<noteq> w" by (auto intro: same_component_sym)
  then show ?thesis unfolding on_cycle_def by blast
qed

lemma reported_iff:
  assumes "v \<in> set (discovered es)"
  shows "reported es v \<longleftrightarrow> hd (component es v) = v \<and> on_cycle es v"
proof -
  from component_self[OF assms] obtain first others where c: "component es v = first # others"
    by (cases "component es v") auto
  have others: "others \<noteq> [] \<longleftrightarrow> (\<exists>u. u \<noteq> v \<and> same_component es v u)" if "first = v"
  proof
    assume "others \<noteq> []"
    then obtain u where u: "u \<in> set others" by (cases others) auto
    with distinct_component[of es v] c that have "u \<noteq> v" by auto
    moreover from u c have "same_component es v u"
      using component_members[of u es v] by simp
    ultimately show "\<exists>u. u \<noteq> v \<and> same_component es v u" by blast
  next
    assume "\<exists>u. u \<noteq> v \<and> same_component es v u"
    then obtain u where u: "u \<noteq> v" "same_component es v u" by blast
    then have "u \<in> set (discovered es)"
      using reaches_discovered(2)[of es v u] by (auto simp: same_component_def)
    with u(2) have "u \<in> set (component es v)" by (simp add: component_def)
    with c that u(1) show "others \<noteq> []" by auto
  qed
  show ?thesis
    unfolding reported_def c using others by (auto simp: on_cycle_def)
qed

lemma concat_map_if: "concat (map (\<lambda>v. if P v then [g v] else []) xs) = map g (filter P xs)"
  by (induction xs) auto

lemma detect_cycles_eq:
  "detect_cycles es = map (\<lambda>v. component es v @ [v]) (filter (reported es) (discovered es))"
  unfolding detect_cycles_def by (rule concat_map_if)


lemma hd_component_reported:
  assumes "on_cycle es v"
  shows "reported es (hd (component es v))"
    and "component es (hd (component es v)) = component es v"
    and "hd (component es v) \<in> set (discovered es)"
proof -
  let ?w = "hd (component es v)"
  from on_cycle_discovered[OF assms] have "component es v \<noteq> []"
    using component_self by fastforce
  then have w: "?w \<in> set (component es v)" by simp
  then have vw: "same_component es v ?w" by (rule component_members)
  from w show disc: "?w \<in> set (discovered es)" by (simp add: component_def)
  from vw show eq: "component es ?w = component es v"
    by (metis component_eq)
  from on_cycle_transfer[OF assms vw] eq disc show "reported es ?w"
    by (simp add: reported_iff)
qed

lemma cycles_are_the_components:
  "(on_cycle es v \<longrightarrow>
      (\<exists>c \<in> set (detect_cycles es).
          set c = {u. same_component es v u} \<and>
          (\<forall>c' \<in> set (detect_cycles es). v \<in> set c' \<longrightarrow> c' = c))) \<and>
   (\<forall>c \<in> set (detect_cycles es).
      \<exists>w. on_cycle es w \<and> set c = {u. same_component es w u} \<and> hd c = w \<and> last c = w) \<and>
   subseq (map hd (detect_cycles es)) (discovered es)"
proof (intro conjI impI ballI)
  assume v: "on_cycle es v"
  let ?w = "hd (component es v)"
  let ?c = "component es ?w @ [?w]"
  note w = hd_component_reported[OF v]
  have c_in: "?c \<in> set (detect_cycles es)"
    unfolding detect_cycles_eq using w(1,3) by auto
  have "?w \<in> set (component es ?w)" using w(3) by (rule component_self)
  then have set_c: "set ?c = {u. same_component es v u}"
    using on_cycle_component[OF v] w(2) by auto
  have unique: "c' = ?c" if "c' \<in> set (detect_cycles es)" "v \<in> set c'" for c'
  proof -
    from that(1) obtain x where x: "x \<in> set (discovered es)" "reported es x"
      "c' = component es x @ [x]"
      unfolding detect_cycles_eq by auto
    from that(2) x(3) component_self[OF x(1)] have "v \<in> set (component es x)" by auto
    then have "same_component es x v" by (rule component_members)
    then have "component es x = component es v" by (rule component_eq)
    moreover from x(1,2) have "hd (component es x) = x" by (simp add: reported_iff)
    ultimately have "x = ?w" by simp
    with x(3) show ?thesis by simp
  qed
  from c_in set_c unique
  show "\<exists>c \<in> set (detect_cycles es).
          set c = {u. same_component es v u} \<and>
          (\<forall>c' \<in> set (detect_cycles es). v \<in> set c' \<longrightarrow> c' = c)"
    by blast
next
  fix c assume "c \<in> set (detect_cycles es)"
  then obtain x where x: "x \<in> set (discovered es)" "reported es x" "c = component es x @ [x]"
    unfolding detect_cycles_eq by auto
  from x(1,2) have hd: "hd (component es x) = x" and cyc: "on_cycle es x"
    by (simp_all add: reported_iff)
  from component_self[OF x(1)] have ne: "component es x \<noteq> []" by auto
  have "set c = {u. same_component es x u}"
    using on_cycle_component[OF cyc] component_self[OF x(1)] x(3) by auto
  moreover have "hd c = x" using x(3) hd ne by simp
  moreover have "last c = x" using x(3) by simp
  ultimately show "\<exists>w. on_cycle es w \<and> set c = {u. same_component es w u} \<and> hd c = w \<and> last c = w"
    using cyc by blast
next
  have "map hd (detect_cycles es) = filter (reported es) (discovered es)"
  proof -
    have "hd (component es x @ [x]) = x" if "x \<in> set (discovered es)" "reported es x" for x
    proof -
      from that have "hd (component es x) = x" by (simp add: reported_iff)
      moreover from component_self[OF that(1)] have "component es x \<noteq> []" by auto
      ultimately show ?thesis by simp
    qed
    then have "map (\<lambda>x. hd (component es x @ [x])) (filter (reported es) (discovered es)) =
        filter (reported es) (discovered es)"
      by (intro map_idI) simp
    then show ?thesis
      unfolding detect_cycles_eq by (simp add: comp_def)
  qed
  then show "subseq (map hd (detect_cycles es)) (discovered es)" by simp
qed


section \<open>Cycle detection: the claim\<close>

text \<open>
  C7. On the internal edges A to B, B to C, C to A, cycle detection yields exactly one
  cycle, of length 3, through A, B and C; on A to B, B to C it yields none. For every
  graph, a node whose component has more than one node, or which has a self-loop, lies
  in exactly one reported cycle, and that cycle's nodes are the node's component; every
  reported cycle is such a component and is closed, and the cycles come in the order
  in which their first nodes are discovered. The output is a function of the edge list,
  so unchanged input gives the same output.
\<close>

theorem dependency_cycles_report_components:
  "dependency_cycles triangle_edges = [[''A'', ''B'', ''C'', ''A'']] \<and>
   map cycle_length (dependency_cycles triangle_edges) = [3] \<and>
   dependency_cycles chain_edges = [] \<and>
   (on_cycle (internal_edges edges) v \<longrightarrow>
      (\<exists>c \<in> set (dependency_cycles edges).
          set c = {u. same_component (internal_edges edges) v u} \<and>
          (\<forall>c' \<in> set (dependency_cycles edges). v \<in> set c' \<longrightarrow> c' = c))) \<and>
   (\<forall>c \<in> set (dependency_cycles edges).
      \<exists>w. on_cycle (internal_edges edges) w \<and>
          set c = {u. same_component (internal_edges edges) w u} \<and> hd c = w \<and> last c = w) \<and>
   subseq (map hd (dependency_cycles edges)) (discovered (internal_edges edges))"
proof -
  have triangle: "dependency_cycles triangle_edges = [[''A'', ''B'', ''C'', ''A'']]"
    by code_simp
  have chain: "dependency_cycles chain_edges = []"
    by code_simp
  have lengths: "map cycle_length (dependency_cycles triangle_edges) = [3]"
    unfolding triangle by (simp add: cycle_length_def)
  from triangle lengths chain cycles_are_the_components[of "internal_edges edges" v]
  show ?thesis unfolding dependency_cycles_def by blast
qed

theorem dependency_cycles_report_components_witness:
  "{u. same_component (internal_edges triangle_edges) ''B'' u} = {''A'', ''B'', ''C''}"
proof -
  have triangle: "dependency_cycles triangle_edges = [[''A'', ''B'', ''C'', ''A'']]"
    by code_simp
  have "same_component (internal_edges triangle_edges) ''B'' ''A''"
    by code_simp
  then have "on_cycle (internal_edges triangle_edges) ''B''"
    unfolding on_cycle_def by (intro disjI1 exI[of _ "''A''"]) simp
  with dependency_cycles_report_components[of triangle_edges "''B''"]
  obtain c where "c \<in> set (dependency_cycles triangle_edges)"
    "set c = {u. same_component (internal_edges triangle_edges) ''B'' u}"
    by blast
  then show ?thesis unfolding triangle by auto
qed



section \<open>TreeSearch: the claim\<close>



end
